theory Spec2Isabelle
  imports Complex_Main "HOL-Library.Word"
begin

section \<open>The liveliness-check component (src/App.tsx)\<close>

text \<open>
  The component \<open>App\<close> is embedded as a state record and one state transformer per
  handler. The record holds the component's \<open>useState\<close> cells, its \<open>useRef\<close> cells
  and the part of the platform the handlers act on: the timers registered with
  \<open>setInterval\<close> and \<open>setTimeout\<close>, the capture streams whose tracks are live, and
  the \<open>getUserMedia\<close> requests that have not settled yet. Two further fields only
  record what the handlers do: \<open>alerts\<close> holds the calls of \<open>alert\<close>, and
  \<open>log\<close> holds the scheduler callbacks in the order in which the source makes them.

  Each handler, and each timer callback together with the state updater it queues, runs to
  completion before the next event is handled. An event that the rendered page
  cannot deliver (a click on a disabled or absent button, a timer that was cleared)
  leaves the state as it is.
\<close>

subsection \<open>Strings\<close>

text \<open>
  A JavaScript string is a sequence of 16-bit code units. \<open>String.prototype.trim\<close>
  removes the code units of \<open>WhiteSpace\<close> and \<open>LineTerminator\<close> from both ends.
\<close>

type_synonym jsstring = "16 word list"

definition is_white :: "16 word \<Rightarrow> bool" where
  "is_white c \<longleftrightarrow>
     c \<in> {0x0009, 0x000A, 0x000B, 0x000C, 0x000D, 0x0020, 0x00A0, 0x1680,
          0x2000, 0x2001, 0x2002, 0x2003, 0x2004, 0x2005, 0x2006, 0x2007,
          0x2008, 0x2009, 0x200A, 0x2028, 0x2029, 0x202F, 0x205F, 0x3000, 0xFEFF}"

definition trim :: "jsstring \<Rightarrow> jsstring" where
  "trim s = rev (dropWhile is_white (rev (dropWhile is_white s)))"

definition at_sign :: "16 word" where
  "at_sign = 0x0040"

text \<open>\<open>s.includes('@')\<close>, for a search string of one code unit.\<close>

definition includes_at :: "jsstring \<Rightarrow> bool" where
  "includes_at s \<longleftrightarrow> at_sign \<in> set s"

text \<open>A string is truthy when it is not empty.\<close>

definition truthy :: "jsstring \<Rightarrow> bool" where
  "truthy s \<longleftrightarrow> s \<noteq> []"

subsection \<open>Data\<close>

record User =
  name :: jsstring
  email :: jsstring

datatype Status = PASS | FAIL

record ChallengeResult =
  status :: Status
  duration :: int
  timestamp :: nat

record Dot =
  dot_x :: real
  dot_y :: real

text \<open>A capture stream is known by its handle; a timer by the handle that
  \<open>setInterval\<close> or \<open>setTimeout\<close> returned (a positive integer, hence truthy).\<close>

type_synonym stream = nat
type_synonym timer_id = nat

datatype alert =
    InvalidRegistration
  | CameraDenied
  | CameraRequired
  | ResultSubmitted Status jsstring jsstring

datatype callback =
    Remaining int
  | Completed
  | Moved real real

record app =
  user :: User
  isRegistered :: bool
  isCameraActive :: bool
  isChallengeActive :: bool
  challengeResult :: "ChallengeResult option"
  timeLeft :: int
  dotPosition :: Dot
  videoRef :: "stream option option"
  streamRef :: "stream option"
  challengeTimerRef :: "timer_id option"
  dotTimerRef :: "timer_id option"
  mounted :: bool
  pendingCamera :: nat
  openStreams :: "stream list"
  intervals :: "(timer_id \<times> nat) list"
  timeouts :: "(timer_id \<times> nat \<times> nat) list"
  nextTimer :: timer_id
  alerts :: "alert list"
  log :: "callback list"

text \<open>
  \<open>videoRef\<close> is \<open>None\<close> while no video element is attached to the ref, and
  \<open>Some src\<close> with the element's \<open>srcObject\<close> otherwise. An entry \<open>(i, p)\<close> of
  \<open>intervals\<close> is a live interval with handle \<open>i\<close> and period \<open>p\<close> ms; an entry
  \<open>(i, d, e)\<close> of \<open>timeouts\<close> is a pending timeout with handle \<open>i\<close> and delay
  \<open>d\<close> ms whose callback \<open>moveDot\<close> closes over a variable \<open>elapsed\<close> of value
  \<open>e\<close>.
\<close>

definition init :: app where
  "init = \<lparr> user = \<lparr> name = [], email = [] \<rparr>,
            isRegistered = False, isCameraActive = False, isChallengeActive = False,
            challengeResult = None, timeLeft = 0,
            dotPosition = \<lparr> dot_x = 50, dot_y = 50 \<rparr>,
            videoRef = None, streamRef = None,
            challengeTimerRef = None, dotTimerRef = None,
            mounted = True, pendingCamera = 0, openStreams = [],
            intervals = [], timeouts = [], nextTimer = 1,
            alerts = [], log = [] \<rparr>"

subsection \<open>Platform timers\<close>

text \<open>\<open>clearInterval\<close> and \<open>clearTimeout\<close> remove the handle from the one table of
  active timers; a handle that is not there is ignored.\<close>

definition clearTimer :: "timer_id \<Rightarrow> app \<Rightarrow> app" where
  "clearTimer i s =
     s\<lparr> intervals := filter (\<lambda>t. fst t \<noteq> i) (intervals s),
        timeouts := filter (\<lambda>t. fst t \<noteq> i) (timeouts s) \<rparr>"

definition setInterval :: "nat \<Rightarrow> app \<Rightarrow> timer_id \<times> app" where
  "setInterval period s =
     (nextTimer s,
      s\<lparr> intervals := intervals s @ [(nextTimer s, period)],
         nextTimer := Suc (nextTimer s) \<rparr>)"

definition setTimeout :: "nat \<Rightarrow> nat \<Rightarrow> app \<Rightarrow> timer_id \<times> app" where
  "setTimeout delay elapsed s =
     (nextTimer s,
      s\<lparr> timeouts := timeouts s @ [(nextTimer s, delay, elapsed)],
         nextTimer := Suc (nextTimer s) \<rparr>)"

subsection \<open>Camera (lines 30-57)\<close>

text \<open>\<open>startCamera\<close> up to its \<open>await\<close>: the request is issued.\<close>

definition startCamera :: "app \<Rightarrow> app" where
  "startCamera s = s\<lparr> pendingCamera := Suc (pendingCamera s) \<rparr>"

text \<open>The rest of the \<open>try\<close> block, run when \<open>getUserMedia\<close> resolves with \<open>st\<close>.\<close>

definition startCamera_resolved :: "stream \<Rightarrow> app \<Rightarrow> app" where
  "startCamera_resolved st s =
     (case videoRef s of
        None \<Rightarrow> s
      | Some _ \<Rightarrow> s\<lparr> videoRef := Some (Some st), streamRef := Some st,
                     isCameraActive := True \<rparr>)"

text \<open>The \<open>catch\<close> block; \<open>notAllowed\<close> says whether the error is a
  \<open>DOMException\<close> named \<open>NotAllowedError\<close>.\<close>

definition startCamera_rejected :: "bool \<Rightarrow> app \<Rightarrow> app" where
  "startCamera_rejected notAllowed s =
     s\<lparr> alerts := alerts s @ [if notAllowed then CameraDenied else CameraRequired] \<rparr>"

definition stopCamera :: "app \<Rightarrow> app" where
  "stopCamera s =
     (case streamRef s of
        None \<Rightarrow> s
      | Some st \<Rightarrow> s\<lparr> openStreams := removeAll st (openStreams s),
                      streamRef := None, isCameraActive := False \<rparr>)"

subsection \<open>Registration (lines 60-67)\<close>

definition handleRegister :: "app \<Rightarrow> app" where
  "handleRegister s =
     (if truthy (trim (name (user s))) \<and> truthy (trim (email (user s)))
         \<and> includes_at (email (user s))
      then startCamera (s\<lparr> isRegistered := True \<rparr>)
      else s\<lparr> alerts := alerts s @ [InvalidRegistration] \<rparr>)"

subsection \<open>Challenge (lines 70-143)\<close>

definition moveInterval :: nat where
  "moveInterval = 800"

definition totalDuration :: nat where
  "totalDuration = 6000"

text \<open>One call of \<open>moveDot\<close>; \<open>r1\<close> and \<open>r2\<close> are the two results of
  \<open>Math.random()\<close>, \<open>elapsed\<close> the value of the enclosing variable at the call.\<close>

definition moveDot :: "real \<Rightarrow> real \<Rightarrow> nat \<Rightarrow> app \<Rightarrow> app" where
  "moveDot r1 r2 elapsed s =
     (let x = r1 * 80 + 10;
          y = r2 * 80 + 10;
          s1 = s\<lparr> dotPosition := \<lparr> dot_x = x, dot_y = y \<rparr>,
                  log := log s @ [Moved x y] \<rparr>;
          elapsed' = elapsed + moveInterval
      in if elapsed' < totalDuration
         then (case setTimeout moveInterval elapsed' s1 of
                 (i, s2) \<Rightarrow> s2\<lparr> dotTimerRef := Some i \<rparr>)
         else s1)"

definition moveDotRandomly :: "real \<Rightarrow> real \<Rightarrow> app \<Rightarrow> app" where
  "moveDotRandomly r1 r2 s = moveDot r1 r2 0 s"

text \<open>\<open>endChallenge\<close>; \<open>r\<close> is the result of \<open>Math.random()\<close> and \<open>now\<close> the
  instant \<open>new Date()\<close> reads.\<close>

definition endChallenge :: "real \<Rightarrow> nat \<Rightarrow> app \<Rightarrow> app" where
  "endChallenge r now s =
     (let s0 = s\<lparr> isChallengeActive := False, log := log s @ [Completed] \<rparr>;
          s1 = (case challengeTimerRef s0 of
                  None \<Rightarrow> s0
                | Some i \<Rightarrow> (clearTimer i s0)\<lparr> challengeTimerRef := None \<rparr>);
          s2 = (case dotTimerRef s1 of
                  None \<Rightarrow> s1
                | Some i \<Rightarrow> (clearTimer i s1)\<lparr> dotTimerRef := None \<rparr>);
          success = (r > 3 / 10)
      in s2\<lparr> challengeResult :=
               Some \<lparr> status = (if success then PASS else FAIL),
                      duration = 6, timestamp = now \<rparr> \<rparr>)"

text \<open>The callback of the countdown interval, with the updater it hands to
  \<open>setTimeLeft\<close> (lines 78-86). The value the updater returns is logged.\<close>

definition countdown :: "real \<Rightarrow> nat \<Rightarrow> app \<Rightarrow> app" where
  "countdown r now s =
     (if timeLeft s \<le> 1
      then (let s1 = endChallenge r now s
            in s1\<lparr> timeLeft := 0, log := log s1 @ [Remaining 0] \<rparr>)
      else s\<lparr> timeLeft := timeLeft s - 1,
              log := log s @ [Remaining (timeLeft s - 1)] \<rparr>)"

definition startChallenge :: "real \<Rightarrow> real \<Rightarrow> app \<Rightarrow> app" where
  "startChallenge r1 r2 s =
     (if \<not> isCameraActive s then s
      else (let s1 = s\<lparr> isChallengeActive := True, challengeResult := None,
                        timeLeft := 6 \<rparr>
            in case setInterval 1000 s1 of
                 (i, s2) \<Rightarrow> moveDotRandomly r1 r2 (s2\<lparr> challengeTimerRef := Some i \<rparr>)))"

definition submitResult :: "app \<Rightarrow> app" where
  "submitResult s =
     (case challengeResult s of
        None \<Rightarrow> s
      | Some res \<Rightarrow>
          s\<lparr> alerts := alerts s @
                 [ResultSubmitted (status res) (name (user s)) (email (user s))],
             challengeResult := None, timeLeft := 0 \<rparr>)"

subsection \<open>Unmount (lines 146-152)\<close>

definition cleanup :: "app \<Rightarrow> app" where
  "cleanup s =
     (let s1 = stopCamera s;
          s2 = (case challengeTimerRef s1 of None \<Rightarrow> s1 | Some i \<Rightarrow> clearTimer i s1)
      in case dotTimerRef s2 of None \<Rightarrow> s2 | Some i \<Rightarrow> clearTimer i s2)"

subsection \<open>Events\<close>

text \<open>
  What can happen to the component: input into the two fields, the three buttons, the
  renderer attaching or detaching the video element, the camera request settling, a
  timer firing, and the unmount. The buttons follow the JSX: the form exists while
  \<open>isRegistered\<close> is false (line 253), the controls while it is true (line 297),
  \<open>Start Challenge\<close> is disabled by \<open>!isCameraActive || isChallengeActive\<close>
  (line 304) and \<open>Submit Result\<close> exists while \<open>challengeResult\<close> is set (line 311).

  The JSX attaches a video element only while \<open>isCameraActive\<close> holds (line 167).
  The event \<open>VideoElement\<close> does not build that in: it lets the element come and go
  at any time while the component is mounted. The states \<open>reachable\<close> through all
  events therefore include the states of the component as it is rendered, which are
  singled out as \<open>rendered\<close> below: a property of every reachable state is one of
  the component, while a state that is reachable need not be one the rendered page
  can get into.
\<close>

datatype event =
    TypeName jsstring
  | TypeEmail jsstring
  | ClickRegister
  | VideoElement bool
  | CameraResolves stream
  | CameraRejects bool
  | ClickStart real real
  | IntervalFires timer_id real nat
  | TimeoutFires timer_id real real
  | ClickSubmit
  | Unmount

definition startDisabled :: "app \<Rightarrow> bool" where
  "startDisabled s \<longleftrightarrow> \<not> isCameraActive s \<or> isChallengeActive s"

fun step :: "event \<Rightarrow> app \<Rightarrow> app" where
  "step (TypeName n) s =
     (if mounted s \<and> \<not> isRegistered s then s\<lparr> user := (user s)\<lparr> name := n \<rparr> \<rparr> else s)"
| "step (TypeEmail e) s =
     (if mounted s \<and> \<not> isRegistered s then s\<lparr> user := (user s)\<lparr> email := e \<rparr> \<rparr> else s)"
| "step ClickRegister s =
     (if mounted s \<and> \<not> isRegistered s then handleRegister s else s)"
| "step (VideoElement b) s =
     (if \<not> mounted s then s
      else if b then (case videoRef s of None \<Rightarrow> s\<lparr> videoRef := Some None \<rparr> | Some _ \<Rightarrow> s)
      else s\<lparr> videoRef := None \<rparr>)"
| "step (CameraResolves st) s =
     (if pendingCamera s = 0 then s
      else startCamera_resolved st
             (s\<lparr> pendingCamera := pendingCamera s - 1,
                 openStreams := st # openStreams s \<rparr>))"
| "step (CameraRejects notAllowed) s =
     (if pendingCamera s = 0 then s
      else startCamera_rejected notAllowed (s\<lparr> pendingCamera := pendingCamera s - 1 \<rparr>))"
| "step (ClickStart r1 r2) s =
     (if mounted s \<and> isRegistered s \<and> \<not> startDisabled s then startChallenge r1 r2 s else s)"
| "step (IntervalFires i r now) s =
     (if i \<in> fst ` set (intervals s) then countdown r now s else s)"
| "step (TimeoutFires i r1 r2) s =
     (case find (\<lambda>t. fst t = i) (timeouts s) of
        None \<Rightarrow> s
      | Some (_, _, e) \<Rightarrow>
          moveDot r1 r2 e (s\<lparr> timeouts := filter (\<lambda>t. fst t \<noteq> i) (timeouts s) \<rparr>))"
| "step ClickSubmit s =
     (if mounted s \<and> isRegistered s \<and> challengeResult s \<noteq> None then submitResult s else s)"
| "step Unmount s =
     (if mounted s then (cleanup s)\<lparr> mounted := False, videoRef := None \<rparr> else s)"

fun run :: "event list \<Rightarrow> app \<Rightarrow> app" where
  "run [] s = s"
| "run (e # es) s = run es (step e s)"

inductive reachable :: "app \<Rightarrow> bool" where
  reachable_init: "reachable init"
| reachable_step: "reachable s \<Longrightarrow> reachable (step e s)"

text \<open>
  The component as the JSX renders it: the video element is attached exactly while
  \<open>isCameraActive\<close> holds (line 167), so the renderer attaches it only in a state
  with an active camera and detaches it only in a state without.
\<close>

fun jsx_allows :: "app \<Rightarrow> event \<Rightarrow> bool" where
  "jsx_allows s (VideoElement b) \<longleftrightarrow> b = isCameraActive s"
| "jsx_allows s e \<longleftrightarrow> True"

inductive rendered :: "app \<Rightarrow> bool" where
  rendered_init: "rendered init"
| rendered_step: "rendered s \<Longrightarrow> jsx_allows s e \<Longrightarrow> rendered (step e s)"

subsection \<open>Registration as one operation\<close>

text \<open>Entering a name and an email address and pressing the register button.\<close>

definition register :: "jsstring \<Rightarrow> jsstring \<Rightarrow> app \<Rightarrow> app" where
  "register n e s = step ClickRegister (step (TypeEmail e) (step (TypeName n) s))"

subsection \<open>Invariants of the reachable states\<close>

text \<open>
  The handles a ref holds, as a list. The live timers are always among the handles in
  the two timer refs; while the countdown interval is live the challenge is shown as
  running on an active camera; the camera is active only on a mounted, registered
  component that holds a stream; and a stored result means that no challenge is running.
\<close>

fun handles :: "timer_id option \<Rightarrow> timer_id list" where
  "handles None = []"
| "handles (Some i) = [i]"

definition timers_tracked :: "app \<Rightarrow> bool" where
  "timers_tracked s \<longleftrightarrow>
     (intervals s = [] \<or> intervals s = map (\<lambda>i. (i, 1000)) (handles (challengeTimerRef s)))
   \<and> (timeouts s = [] \<or> map fst (timeouts s) = handles (dotTimerRef s))
   \<and> (timeouts s \<noteq> [] \<longrightarrow> intervals s \<noteq> [])"

definition running_ok :: "app \<Rightarrow> bool" where
  "running_ok s \<longleftrightarrow>
     (intervals s \<noteq> [] \<longrightarrow>
        isCameraActive s \<and> isChallengeActive s
        \<and> challengeResult s = None \<and> 1 \<le> timeLeft s \<and> timeLeft s \<le> 6)"

definition device_ok :: "app \<Rightarrow> bool" where
  "device_ok s \<longleftrightarrow>
     (\<not> mounted s \<longrightarrow> videoRef s = None)
   \<and> (isCameraActive s \<longrightarrow> mounted s \<and> isRegistered s \<and> streamRef s \<noteq> None)
   \<and> (0 < pendingCamera s \<longrightarrow> isRegistered s)"

definition result_ok :: "app \<Rightarrow> bool" where
  "result_ok s \<longleftrightarrow>
     (challengeResult s \<noteq> None \<longrightarrow>
        \<not> isChallengeActive s \<and> isRegistered s \<and> (mounted s \<longrightarrow> isCameraActive s))"

definition coherent :: "app \<Rightarrow> bool" where
  "coherent s \<longleftrightarrow> timers_tracked s \<and> running_ok s \<and> device_ok s \<and> result_ok s"

subsection \<open>States and predicates used in the statements\<close>

text \<open>A component that has been unmounted and has no timer left.\<close>

definition dead :: "app \<Rightarrow> bool" where
  "dead s \<longleftrightarrow> \<not> mounted s \<and> videoRef s = None \<and> intervals s = [] \<and> timeouts s = []"

text \<open>No timer is registered.\<close>

definition quiet :: "app \<Rightarrow> bool" where
  "quiet s \<longleftrightarrow> intervals s = [] \<and> timeouts s = []"

text \<open>The events that press \<open>Start Challenge\<close>.\<close>

fun is_start :: "event \<Rightarrow> bool" where
  "is_start (ClickStart r1 r2) = True"
| "is_start e = False"

text \<open>
  A run used in the examples: Alice registers, the video element is attached, the
  camera resolves with stream 7 (\<open>idle_state\<close>); she starts a challenge, the
  countdown ticks once and the dot moves once (\<open>running_state\<close>); the countdown ticks
  down to one second (\<open>last_second\<close>) and then to zero (\<open>result_ready\<close>). The run
  attaches the video element before the camera is active (\<open>VideoElement True\<close> in
  \<open>to_idle\<close>); these four states are reachable, but not \<open>rendered\<close>.
\<close>

definition alice :: jsstring where
  "alice = [0x41, 0x6C, 0x69, 0x63, 0x65]"

definition alice_mail :: jsstring where
  "alice_mail = [0x61, 0x40, 0x62, 0x2E, 0x63, 0x6F, 0x6D]"

definition to_idle :: "event list" where
  "to_idle = [TypeName alice, TypeEmail alice_mail, ClickRegister, VideoElement True, CameraResolves 7]"

definition idle_state :: app where
  "idle_state = run to_idle init"

definition running_state :: app where
  "running_state = run [ClickStart (1/2) (1/4), IntervalFires 1 (1/2) 0, TimeoutFires 2 (1/4) (3/4)]
                       idle_state"

definition last_second :: app where
  "last_second = run [IntervalFires 1 (1/2) 0, IntervalFires 1 (1/2) 0, IntervalFires 1 (1/2) 0,
                      IntervalFires 1 (1/2) 0] running_state"

definition result_ready :: app where
  "result_ready = step (IntervalFires 1 (1/2) 1700000000000) last_second"

text \<open>
  The run of the page as it is rendered: Alice registers (\<open>registered_state\<close>) and the
  camera resolves with stream 7 while no video element is attached
  (\<open>acquired_state\<close>).
\<close>

definition registered_state :: app where
  "registered_state = run [TypeName alice, TypeEmail alice_mail, ClickRegister] init"

definition acquired_state :: app where
  "acquired_state = run [TypeName alice, TypeEmail alice_mail, ClickRegister, CameraResolves 7] init"

text \<open>
  The challenge of the example run to its end, in the order in which the timers fall
  due: the dot moves every 800 ms, the countdown ticks every 1000 ms. After
  \<open>until_last_move\<close> the eighth position has been emitted, at 5600 ms; the last
  event of \<open>full_run\<close> is the tick at 6000 ms.
\<close>

definition until_last_move :: "event list" where
  "until_last_move =
     [TimeoutFires 2 (1/4) (3/4), IntervalFires 1 (1/2) 1000,
      TimeoutFires 3 (1/8) (1/8), IntervalFires 1 (1/2) 2000,
      TimeoutFires 4 (1/2) (1/2), IntervalFires 1 (1/2) 3000,
      TimeoutFires 5 (3/4) (1/4),
      TimeoutFires 6 0 (7/8), IntervalFires 1 (1/2) 4000,
      TimeoutFires 7 (7/8) 0, IntervalFires 1 (1/2) 5000,
      TimeoutFires 8 (1/4) (1/4)]"

definition full_run :: "event list" where
  "full_run = until_last_move @ [IntervalFires 1 (1/2) 6000]"

subsection \<open>Random draws and what is logged\<close>

text \<open>
  \<open>Math.random()\<close> returns a number in \<open>[0, 1)\<close>; the model takes it as a real
  number. \<open>draws_ok\<close> says that the draws an event brings with it are in that range.
  A logged position is in the viewport when both coordinates, as fractions of the
  viewport, lie between 0.10 and 0.90.
\<close>

definition unit_draw :: "real \<Rightarrow> bool" where
  "unit_draw r \<longleftrightarrow> 0 \<le> r \<and> r < 1"

fun draws_ok :: "event \<Rightarrow> bool" where
  "draws_ok (ClickStart r1 r2) \<longleftrightarrow> unit_draw r1 \<and> unit_draw r2"
| "draws_ok (TimeoutFires i r1 r2) \<longleftrightarrow> unit_draw r1 \<and> unit_draw r2"
| "draws_ok (IntervalFires i r now) \<longleftrightarrow> unit_draw r"
| "draws_ok e \<longleftrightarrow> True"

fun in_viewport :: "callback \<Rightarrow> bool" where
  "in_viewport (Moved x y) \<longleftrightarrow>
     1 / 10 \<le> x / 100 \<and> x / 100 \<le> 9 / 10 \<and> 1 / 10 \<le> y / 100 \<and> y / 100 \<le> 9 / 10"
| "in_viewport c \<longleftrightarrow> True"

text \<open>The callbacks of the countdown, the callbacks of the motion scheduler and their
  number, and the events that unmount.\<close>

fun is_unmount :: "event \<Rightarrow> bool" where
  "is_unmount Unmount = True"
| "is_unmount e = False"

fun is_countdown :: "callback \<Rightarrow> bool" where
  "is_countdown (Moved x y) = False"
| "is_countdown c = True"

fun is_move :: "callback \<Rightarrow> bool" where
  "is_move (Moved x y) = True"
| "is_move c = False"

definition moves :: "callback list \<Rightarrow> nat" where
  "moves l = length (filter is_move l)"

text \<open>
  Two invariants of a challenge while it runs. The countdown callbacks logged so far are
  those logged \<open>before\<close> the challenge, followed by the remaining values from 5 down to
  \<open>timeLeft\<close> while the interval is live, and by the whole sequence once it is
  cleared. A pending timeout has delay 800 and carries the elapsed time, which is below
  6000 and is 800 times the number of positions emitted since the challenge began;
  without a pending timeout at most eight have been emitted.
\<close>

definition countdown_trace :: "callback list \<Rightarrow> app \<Rightarrow> bool" where
  "countdown_trace before s \<longleftrightarrow>
     filter is_countdown (log s) =
       before @ (if intervals s \<noteq> [] then map Remaining (rev [timeLeft s..5])
                 else [Remaining 5, Remaining 4, Remaining 3, Remaining 2, Remaining 1,
                       Completed, Remaining 0])"

definition motion_trace :: "nat \<Rightarrow> app \<Rightarrow> bool" where
  "motion_trace n s \<longleftrightarrow>
     (case timeouts s of
        [] \<Rightarrow> moves (log s) \<le> n + 8
      | (i, d, e) # rest \<Rightarrow>
          rest = [] \<and> d = 800 \<and> e < 6000 \<and> 800 * moves (log s) = 800 * n + e)"

section \<open>Properties\<close>

subsection \<open>Trimming\<close>

lemma at_sign_not_white: "\<not> is_white at_sign"
  by (simp add: is_white_def at_sign_def)

lemma truthy_trim: "truthy (trim s) \<longleftrightarrow> (\<exists>c \<in> set s. \<not> is_white c)"
proof -
  have "dropWhile is_white (rev (dropWhile is_white s)) = [] \<longleftrightarrow> dropWhile is_white s = []"
  proof
    assume a: "dropWhile is_white (rev (dropWhile is_white s)) = []"
    show "dropWhile is_white s = []"
    proof (rule ccontr)
      assume n: "dropWhile is_white s \<noteq> []"
      then have "\<not> is_white (hd (dropWhile is_white s))" by (rule hd_dropWhile)
      moreover have "hd (dropWhile is_white s) \<in> set (rev (dropWhile is_white s))"
        using n by simp
      ultimately show False using a by (auto simp: dropWhile_eq_Nil_conv)
    qed
  next
    assume "dropWhile is_white s = []"
    then show "dropWhile is_white (rev (dropWhile is_white s)) = []"
      by (simp only: rev.simps dropWhile.simps)
  qed
  then show ?thesis
    by (auto simp: truthy_def trim_def dropWhile_eq_Nil_conv)
qed

lemma includes_at_truthy_trim: "includes_at e \<Longrightarrow> truthy (trim e)"
  using at_sign_not_white by (auto simp: truthy_trim includes_at_def)

subsection \<open>The invariants are preserved by every event\<close>

lemmas handler_defs =
  clearTimer_def setInterval_def setTimeout_def startCamera_def startCamera_resolved_def
  startCamera_rejected_def stopCamera_def handleRegister_def moveDot_def moveDotRandomly_def
  endChallenge_def countdown_def startChallenge_def submitResult_def cleanup_def
  startDisabled_def moveInterval_def totalDuration_def Let_def

lemma handles_eq_Nil: "handles r = [] \<longleftrightarrow> r = None"
  by (cases r) simp_all


lemma timers_tracked_step:
  assumes "timers_tracked s" and "running_ok s"
  shows "timers_tracked (step e s)"
proof (cases e)
  case (IntervalFires i r now)
  with assms show ?thesis
    by (cases "challengeTimerRef s"; cases "dotTimerRef s"; cases "timeouts s")
       (auto simp: timers_tracked_def handler_defs)
next
  case (TimeoutFires i r1 r2)
  with assms show ?thesis
    by (cases "dotTimerRef s"; cases "timeouts s")
       (auto simp: timers_tracked_def handler_defs split: option.splits if_splits)
next
  case Unmount
  with assms show ?thesis
    by (cases "challengeTimerRef s"; cases "dotTimerRef s"; cases "timeouts s"; cases "streamRef s")
       (auto simp: timers_tracked_def handler_defs)
next
  case (ClickStart r1 r2)
  with assms show ?thesis
    by (auto simp: timers_tracked_def running_ok_def handler_defs)
qed (use assms in \<open>auto simp: timers_tracked_def handler_defs split: option.splits\<close>)

lemma running_ok_step:
  assumes "timers_tracked s" and "running_ok s" and "result_ok s"
  shows "running_ok (step e s)"
proof (cases e)
  case (IntervalFires i r now)
  with assms show ?thesis
    by (cases "challengeTimerRef s"; cases "dotTimerRef s")
       (auto simp: timers_tracked_def running_ok_def handler_defs)
next
  case (TimeoutFires i r1 r2)
  with assms show ?thesis
    by (auto simp: running_ok_def handler_defs split: option.splits if_splits)
next
  case Unmount
  with assms show ?thesis
    by (cases "challengeTimerRef s"; cases "dotTimerRef s"; cases "streamRef s")
       (auto simp: timers_tracked_def running_ok_def handler_defs)
next
  case ClickSubmit
  with assms show ?thesis
    by (auto simp: running_ok_def result_ok_def handler_defs split: option.splits)
qed (use assms in \<open>auto simp: running_ok_def handler_defs split: option.splits\<close>)

lemma device_ok_step:
  assumes "device_ok s"
  shows "device_ok (step e s)"
proof (cases e)
  case (TimeoutFires i r1 r2)
  with assms show ?thesis
    by (auto simp: device_ok_def handler_defs split: option.splits if_splits)
next
  case Unmount
  with assms show ?thesis
    by (cases "challengeTimerRef s"; cases "dotTimerRef s"; cases "streamRef s")
       (auto simp: device_ok_def handler_defs)
next
  case (IntervalFires i r now)
  with assms show ?thesis
    by (cases "challengeTimerRef s"; cases "dotTimerRef s")
       (auto simp: device_ok_def handler_defs)
qed (use assms in \<open>auto simp: device_ok_def handler_defs split: option.splits\<close>)

lemma endChallenge_tracked:
  assumes "timers_tracked s"
  shows "endChallenge r now s =
           s\<lparr> isChallengeActive := False, log := log s @ [Completed],
              intervals := [], timeouts := [],
              challengeTimerRef := None, dotTimerRef := None,
              challengeResult := Some \<lparr> status = (if 3 / 10 < r then PASS else FAIL),
                                          duration = 6, timestamp = now \<rparr> \<rparr>"
proof -
  have i: "filter (\<lambda>t. fst t \<noteq> j) (intervals s) = []" if "challengeTimerRef s = Some j" for j
    using assms that by (auto simp: timers_tracked_def)
  have i0: "intervals s = []" if "challengeTimerRef s = None"
    using assms that by (auto simp: timers_tracked_def)
  have t: "filter (\<lambda>t. fst t \<noteq> j) (timeouts s) = []" if "dotTimerRef s = Some j" for j
  proof (cases "timeouts s")
    case (Cons a list)
    then have "map fst (timeouts s) = [j]" using assms that by (simp add: timers_tracked_def)
    with Cons show ?thesis by auto
  qed simp
  have t0: "timeouts s = []" if "dotTimerRef s = None"
    using assms that by (auto simp: timers_tracked_def)
  show ?thesis
    by (cases "challengeTimerRef s"; cases "dotTimerRef s"; cases s)
       (use i i0 t t0 in \<open>auto simp add: endChallenge_def clearTimer_def Let_def filter_empty_conv\<close>)
qed

lemma countdown_last:
  "timers_tracked s \<Longrightarrow> timeLeft s \<le> 1 \<Longrightarrow>
   countdown r now s =
     s\<lparr> isChallengeActive := False, log := log s @ [Completed, Remaining 0],
        intervals := [], timeouts := [],
        challengeTimerRef := None, dotTimerRef := None,
        challengeResult := Some \<lparr> status = (if 3 / 10 < r then PASS else FAIL),
                                    duration = 6, timestamp = now \<rparr>,
        timeLeft := 0 \<rparr>"
  by (simp add: countdown_def endChallenge_tracked Let_def)

lemma countdown_tick:
  "1 < timeLeft s \<Longrightarrow>
   countdown r now s =
     s\<lparr> timeLeft := timeLeft s - 1, log := log s @ [Remaining (timeLeft s - 1)] \<rparr>"
  by (simp add: countdown_def)

lemma cleanup_tracked:
  assumes "timers_tracked s"
  shows "cleanup s = (stopCamera s)\<lparr> intervals := [], timeouts := [] \<rparr>"
proof -
  have i: "filter (\<lambda>t. fst t \<noteq> j) (intervals s) = []" if "challengeTimerRef s = Some j" for j
    using assms that by (auto simp: timers_tracked_def)
  have i0: "intervals s = []" if "challengeTimerRef s = None"
    using assms that by (auto simp: timers_tracked_def)
  have t: "filter (\<lambda>t. fst t \<noteq> j) (timeouts s) = []" if "dotTimerRef s = Some j" for j
  proof (cases "timeouts s")
    case (Cons a list)
    then have "map fst (timeouts s) = [j]" using assms that by (simp add: timers_tracked_def)
    with Cons show ?thesis by auto
  qed simp
  have t0: "timeouts s = []" if "dotTimerRef s = None"
    using assms that by (auto simp: timers_tracked_def)
  show ?thesis
    by (cases "challengeTimerRef s"; cases "dotTimerRef s"; cases "streamRef s"; cases s)
       (use i i0 t t0 in \<open>auto simp add: cleanup_def stopCamera_def clearTimer_def Let_def filter_empty_conv\<close>)
qed

lemma moveDot_more:
  "elapsed + 800 < 6000 \<Longrightarrow>
   moveDot r1 r2 elapsed s =
     s\<lparr> dotPosition := \<lparr> dot_x = r1 * 80 + 10, dot_y = r2 * 80 + 10 \<rparr>,
        log := log s @ [Moved (r1 * 80 + 10) (r2 * 80 + 10)],
        timeouts := timeouts s @ [(nextTimer s, 800, elapsed + 800)],
        nextTimer := Suc (nextTimer s),
        dotTimerRef := Some (nextTimer s) \<rparr>"
  by (simp add: moveDot_def setTimeout_def moveInterval_def totalDuration_def Let_def)

lemma moveDot_done:
  "\<not> elapsed + 800 < 6000 \<Longrightarrow>
   moveDot r1 r2 elapsed s =
     s\<lparr> dotPosition := \<lparr> dot_x = r1 * 80 + 10, dot_y = r2 * 80 + 10 \<rparr>,
        log := log s @ [Moved (r1 * 80 + 10) (r2 * 80 + 10)] \<rparr>"
  by (simp add: moveDot_def moveInterval_def totalDuration_def Let_def)

lemma startChallenge_active:
  "isCameraActive s \<Longrightarrow>
   startChallenge r1 r2 s =
     s\<lparr> isChallengeActive := True, challengeResult := None, timeLeft := 6,
        intervals := intervals s @ [(nextTimer s, 1000)],
        challengeTimerRef := Some (nextTimer s),
        dotPosition := \<lparr> dot_x = r1 * 80 + 10, dot_y = r2 * 80 + 10 \<rparr>,
        log := log s @ [Moved (r1 * 80 + 10) (r2 * 80 + 10)],
        timeouts := timeouts s @ [(Suc (nextTimer s), 800, 800)],
        nextTimer := Suc (Suc (nextTimer s)),
        dotTimerRef := Some (Suc (nextTimer s)) \<rparr>"
  by (simp add: startChallenge_def setInterval_def moveDotRandomly_def moveDot_more)

lemma step_TimeoutFires_tracked:
  assumes "timers_tracked s"
  shows "step (TimeoutFires i r1 r2) s =
           (case timeouts s of
              [] \<Rightarrow> s
            | (j, d, e) # _ \<Rightarrow> if i = j then moveDot r1 r2 e (s\<lparr> timeouts := [] \<rparr>) else s)"
proof (cases "timeouts s")
  case Nil
  then show ?thesis by simp
next
  case (Cons a list)
  then have "length (map fst (timeouts s)) \<le> 1"
    using assms by (cases "dotTimerRef s") (auto simp: timers_tracked_def)
  with Cons have "list = []" by simp
  with Cons show ?thesis by (cases a) auto
qed

lemma result_ok_step:
  assumes "timers_tracked s" and "running_ok s" and "device_ok s" and "result_ok s"
  shows "result_ok (step e s)"
proof (cases e)
  case (TimeoutFires i r1 r2)
  have "result_ok (moveDot r1 r2 el (s\<lparr> timeouts := [] \<rparr>))" for el
    using assms(4) by (cases "el + 800 < 6000") (simp_all add: moveDot_more moveDot_done result_ok_def)
  with assms TimeoutFires show ?thesis
    by (simp add: step_TimeoutFires_tracked split: list.splits del: step.simps)
next
  case Unmount
  with assms show ?thesis
    by (cases "streamRef s") (simp_all add: cleanup_tracked stopCamera_def result_ok_def device_ok_def)
next
  case (IntervalFires i r now)
  have "intervals s \<noteq> []" if "i \<in> fst ` set (intervals s)"
    using that by auto
  with assms IntervalFires show ?thesis
    by (cases "timeLeft s \<le> 1")
       (simp_all add: countdown_last countdown_tick result_ok_def running_ok_def device_ok_def)
next
  case ClickSubmit
  with assms show ?thesis
    by (cases "challengeResult s") (simp_all add: result_ok_def submitResult_def)
next
  case (ClickStart r1 r2)
  with assms show ?thesis
    by (simp add: result_ok_def startChallenge_active startDisabled_def)
next
  case (CameraResolves st)
  with assms show ?thesis
    by (cases "videoRef s") (auto simp: result_ok_def device_ok_def startCamera_resolved_def)
next
  case (VideoElement b)
  with assms show ?thesis
    by (cases "videoRef s") (auto simp: result_ok_def)
qed (use assms in \<open>auto simp: result_ok_def handleRegister_def startCamera_def startCamera_rejected_def split: if_splits\<close>)

lemma coherent_init: "coherent init"
  by (simp add: coherent_def timers_tracked_def running_ok_def device_ok_def result_ok_def init_def)

lemma coherent_step: "coherent s \<Longrightarrow> coherent (step e s)"
  by (simp add: coherent_def timers_tracked_step running_ok_step device_ok_step result_ok_step)

lemma reachable_coherent: "reachable s \<Longrightarrow> coherent s"
  by (induction rule: reachable.induct) (simp_all add: coherent_init coherent_step)

lemma reachable_run: "reachable s \<Longrightarrow> reachable (run es s)"
  by (induction es arbitrary: s) (simp_all add: reachable_step)

lemma coherent_run: "coherent s \<Longrightarrow> coherent (run es s)"
  by (induction es arbitrary: s) (simp_all add: coherent_step)

lemma run_append: "run (es @ fs) s = run fs (run es s)"
  by (induction es arbitrary: s) simp_all

subsection \<open>The example states\<close>

lemma idle_state_eq:
  "idle_state = init\<lparr> user := \<lparr> name = alice, email = alice_mail \<rparr>, isRegistered := True,
                       isCameraActive := True, videoRef := Some (Some 7), streamRef := Some 7,
                       openStreams := [7] \<rparr>"
  by (simp add: idle_state_def to_idle_def init_def alice_def alice_mail_def handleRegister_def
       startCamera_def startCamera_resolved_def truthy_def trim_def is_white_def includes_at_def
       at_sign_def)

lemma reachable_idle_state: "reachable idle_state"
  unfolding idle_state_def by (rule reachable_run [OF reachable_init])

lemma running_state_eq:
  "running_state =
     init\<lparr> user := \<lparr> name = alice, email = alice_mail \<rparr>, isRegistered := True,
           isCameraActive := True, isChallengeActive := True, timeLeft := 5,
           dotPosition := \<lparr> dot_x = 30, dot_y = 70 \<rparr>,
           videoRef := Some (Some 7), streamRef := Some 7,
           challengeTimerRef := Some 1, dotTimerRef := Some 3,
           openStreams := [7], intervals := [(1, 1000)], timeouts := [(3, 800, 1600)],
           nextTimer := 4, log := [Moved 50 30, Remaining 5, Moved 30 70] \<rparr>"
  by (simp add: running_state_def idle_state_eq init_def startDisabled_def startChallenge_active
       countdown_tick moveDot_more)

lemma reachable_running_state: "reachable running_state"
  unfolding running_state_def by (rule reachable_run [OF reachable_idle_state])

lemma last_second_eq:
  "last_second = running_state\<lparr> timeLeft := 1,
      log := [Moved 50 30, Remaining 5, Moved 30 70, Remaining 4, Remaining 3, Remaining 2,
              Remaining 1] \<rparr>"
  by (simp add: last_second_def running_state_eq init_def countdown_tick)

lemma reachable_last_second: "reachable last_second"
  unfolding last_second_def by (rule reachable_run [OF reachable_running_state])

subsection \<open>Single events in a reachable state\<close>

lemma step_IntervalFires_last:
  assumes "reachable s" and "i \<in> fst ` set (intervals s)" and "timeLeft s \<le> 1"
  shows "step (IntervalFires i r now) s =
     s\<lparr> isChallengeActive := False, log := log s @ [Completed, Remaining 0],
        intervals := [], timeouts := [],
        challengeTimerRef := None, dotTimerRef := None,
        challengeResult := Some \<lparr> status = (if 3 / 10 < r then PASS else FAIL),
                                    duration = 6, timestamp = now \<rparr>,
        timeLeft := 0 \<rparr>"
proof -
  from assms(1) have "timers_tracked s"
    using reachable_coherent by (simp add: coherent_def)
  with assms(2,3) show ?thesis by (simp add: countdown_last)
qed

lemma live_interval_camera:
  assumes "reachable s" and "i \<in> fst ` set (intervals s)"
  shows "isCameraActive s \<and> isChallengeActive s \<and> 1 \<le> timeLeft s"
proof -
  from assms(2) have "intervals s \<noteq> []" by auto
  moreover from assms(1) have "running_ok s"
    using reachable_coherent by (simp add: coherent_def)
  ultimately show ?thesis by (simp add: running_ok_def)
qed

lemma result_ready_eq:
  "result_ready =
     last_second\<lparr> isChallengeActive := False,
        log := [Moved 50 30, Remaining 5, Moved 30 70, Remaining 4, Remaining 3, Remaining 2,
                Remaining 1, Completed, Remaining 0],
        intervals := [], timeouts := [],
        challengeTimerRef := None, dotTimerRef := None,
        challengeResult := Some \<lparr> status = PASS, duration = 6, timestamp = 1700000000000 \<rparr>,
        timeLeft := 0 \<rparr>"
  unfolding result_ready_def
  by (subst step_IntervalFires_last [OF reachable_last_second])
     (simp_all add: last_second_eq running_state_eq init_def)

lemma reachable_result_ready: "reachable result_ready"
  unfolding result_ready_def by (rule reachable_step [OF reachable_last_second])

lemma step_Unmount_tracked:
  "timers_tracked s \<Longrightarrow> mounted s \<Longrightarrow>
   step Unmount s = (stopCamera s)\<lparr> intervals := [], timeouts := [], mounted := False, videoRef := None \<rparr>"
  by (simp add: cleanup_tracked)

lemma stopCamera_absent: "streamRef s = None \<Longrightarrow> stopCamera s = s"
  by (simp add: stopCamera_def)

lemma stopCamera_twice: "stopCamera (stopCamera s) = stopCamera s"
  by (cases "streamRef s") (simp_all add: stopCamera_def)

lemma cleanup_twice: "cleanup (cleanup s) = cleanup s"
  by (cases "streamRef s"; cases "challengeTimerRef s"; cases "dotTimerRef s")
     (simp_all add: cleanup_def stopCamera_def clearTimer_def Let_def cong: conj_cong)

lemma start_disabled_noop:
  "\<not> (isCameraActive s \<and> \<not> isChallengeActive s) \<Longrightarrow> step (ClickStart r1 r2) s = s"
  by (auto simp: startDisabled_def)

lemma start_twice: "step (ClickStart r3 r4) (step (ClickStart r1 r2) s) = step (ClickStart r1 r2) s"
  by (simp add: startDisabled_def startChallenge_active)

lemma tracked_intervals_le1: "timers_tracked s \<Longrightarrow> length (intervals s) \<le> 1"
  by (cases "challengeTimerRef s") (auto simp: timers_tracked_def)

subsection \<open>A component without timers stays silent\<close>

lemma dead_step: "dead s \<Longrightarrow> dead (step e s) \<and> log (step e s) = log s"
  by (cases e)
     (simp_all add: dead_def startCamera_resolved_def startCamera_rejected_def)

lemma dead_run: "dead s \<Longrightarrow> dead (run es s) \<and> log (run es s) = log s"
proof (induction es arbitrary: s)
  case Nil
  then show ?case by simp
next
  case (Cons e es)
  from Cons.prems have "dead (step e s)" and "log (step e s) = log s"
    by (simp_all add: dead_step)
  with Cons.IH [of "step e s"] show ?case by simp
qed

lemma quiet_step:
  assumes "quiet s" and "\<not> is_start e"
  shows "quiet (step e s) \<and> log (step e s) = log s
         \<and> (challengeResult s = None \<longrightarrow> challengeResult (step e s) = None)"
proof (cases e)
  case (CameraResolves st)
  with assms show ?thesis
    by (cases "videoRef s") (simp_all add: quiet_def startCamera_resolved_def)
next
  case (VideoElement b)
  with assms show ?thesis
    by (cases "videoRef s") (simp_all add: quiet_def)
next
  case ClickSubmit
  with assms show ?thesis
    by (cases "challengeResult s") (simp_all add: quiet_def submitResult_def)
next
  case Unmount
  with assms show ?thesis
    by (cases "streamRef s"; cases "challengeTimerRef s"; cases "dotTimerRef s")
       (simp_all add: quiet_def cleanup_def stopCamera_def clearTimer_def Let_def)
qed (use assms in \<open>simp_all add: quiet_def handleRegister_def startCamera_def startCamera_rejected_def\<close>)

lemma quiet_run:
  "quiet s \<Longrightarrow> \<not> list_ex is_start es \<Longrightarrow>
   quiet (run es s) \<and> log (run es s) = log s
   \<and> (challengeResult s = None \<longrightarrow> challengeResult (run es s) = None)"
proof (induction es arbitrary: s)
  case Nil
  then show ?case by simp
next
  case (Cons e es)
  from Cons.prems have q: "quiet (step e s) \<and> log (step e s) = log s
         \<and> (challengeResult s = None \<longrightarrow> challengeResult (step e s) = None)"
    by (intro quiet_step) simp_all
  from Cons.prems have "\<not> list_ex is_start es" by simp
  with q Cons.IH [of "step e s"] show ?case by simp
qed

subsection \<open>What each handler logs\<close>

lemma log_moveDot:
  "log (moveDot r1 r2 el s) = log s @ [Moved (r1 * 80 + 10) (r2 * 80 + 10)]"
  by (cases "el + 800 < 6000") (simp_all add: moveDot_more moveDot_done)

lemma dotPosition_moveDot:
  "dotPosition (moveDot r1 r2 el s) = \<lparr> dot_x = r1 * 80 + 10, dot_y = r2 * 80 + 10 \<rparr>"
  by (cases "el + 800 < 6000") (simp_all add: moveDot_more moveDot_done)

lemma log_endChallenge: "log (endChallenge r now s) = log s @ [Completed]"
  by (cases "challengeTimerRef s"; cases "dotTimerRef s")
     (simp_all add: endChallenge_def clearTimer_def Let_def)

lemma log_countdown:
  "log (countdown r now s) =
     log s @ (if timeLeft s \<le> 1 then [Completed, Remaining 0] else [Remaining (timeLeft s - 1)])"
  by (simp add: countdown_def log_endChallenge Let_def)

lemma log_cleanup: "log (cleanup s) = log s"
  by (cases "streamRef s"; cases "challengeTimerRef s"; cases "dotTimerRef s")
     (simp_all add: cleanup_def stopCamera_def clearTimer_def Let_def)

lemma in_viewport_step:
  assumes "draws_ok e" and "list_all in_viewport (log s)"
  shows "list_all in_viewport (log (step e s))"
proof (cases e)
  case (ClickStart r1 r2)
  with assms show ?thesis
    by (simp add: startChallenge_def setInterval_def moveDotRandomly_def log_moveDot
         unit_draw_def)
next
  case (TimeoutFires i r1 r2)
  with assms show ?thesis
    by (simp add: log_moveDot unit_draw_def split: option.splits prod.splits)
next
  case (IntervalFires i r now)
  with assms show ?thesis by (simp add: log_countdown)
next
  case (VideoElement b)
  with assms show ?thesis by (cases "videoRef s") simp_all
next
  case (CameraResolves st)
  with assms show ?thesis by (cases "videoRef s") (simp_all add: startCamera_resolved_def)
next
  case ClickSubmit
  with assms show ?thesis by (cases "challengeResult s") (simp_all add: submitResult_def)
next
  case Unmount
  with assms show ?thesis by (simp add: log_cleanup)
qed (use assms in \<open>simp_all add: handleRegister_def startCamera_def startCamera_rejected_def\<close>)

lemma in_viewport_run:
  "list_all draws_ok es \<Longrightarrow> list_all in_viewport (log s) \<Longrightarrow>
   list_all in_viewport (log (run es s))"
  by (induction es arbitrary: s) (simp_all add: in_viewport_step)

lemma unit_draw_unique: "10 \<le> v \<Longrightarrow> v < 90 \<Longrightarrow> \<exists>!r. unit_draw r \<and> r * 80 + 10 = (v::real)"
proof
  assume "10 \<le> v" and "v < 90"
  then show "unit_draw ((v - 10) / 80) \<and> (v - 10) / 80 * 80 + 10 = v"
    by (simp add: unit_draw_def field_simps)
next
  fix r
  assume "unit_draw r \<and> r * 80 + 10 = v"
  then show "r = (v - 10) / 80" by auto
qed

subsection \<open>Events that touch neither timers nor log\<close>

lemma passive_step:
  assumes "\<not> is_start e" and "\<not> is_unmount e"
    and "\<forall>i r now. e \<noteq> IntervalFires i r now" and "\<forall>i r1 r2. e \<noteq> TimeoutFires i r1 r2"
  shows "log (step e s) = log s \<and> intervals (step e s) = intervals s
       \<and> timeouts (step e s) = timeouts s
       \<and> (challengeResult s = None \<longrightarrow> timeLeft (step e s) = timeLeft s)"
proof (cases e)
  case (VideoElement b)
  then show ?thesis by (cases "videoRef s") simp_all
next
  case (CameraResolves st)
  then show ?thesis by (cases "videoRef s") (simp_all add: startCamera_resolved_def)
next
  case ClickSubmit
  then show ?thesis by (cases "challengeResult s") (simp_all add: submitResult_def)
next
  case (IntervalFires i r now)
  with assms(3) show ?thesis by blast
next
  case (TimeoutFires i r1 r2)
  with assms(4) show ?thesis by blast
qed (use assms in \<open>simp_all add: handleRegister_def startCamera_def startCamera_rejected_def\<close>)

lemma moveDot_frame:
  "intervals (moveDot r1 r2 el s) = intervals s \<and> timeLeft (moveDot r1 r2 el s) = timeLeft s"
  by (cases "el + 800 < 6000") (simp_all add: moveDot_more moveDot_done)

lemma step_TimeoutFires_frame:
  "intervals (step (TimeoutFires i r1 r2) s) = intervals s
   \<and> timeLeft (step (TimeoutFires i r1 r2) s) = timeLeft s
   \<and> filter is_countdown (log (step (TimeoutFires i r1 r2) s)) = filter is_countdown (log s)"
  by (simp add: moveDot_frame log_moveDot split: option.splits prod.splits)

lemma rev_upto_pred: "i \<le> j + 1 \<Longrightarrow> rev [i - 1..j] = rev [i..j] @ [i - 1]"
  by (simp add: upto_rec1 [of "i - 1" j])

subsection \<open>The countdown invariant\<close>

lemma countdown_trace_step:
  assumes "coherent s" and "countdown_trace before s" and "\<not> is_start e" and "\<not> is_unmount e"
  shows "countdown_trace before (step e s)"
proof -
  from assms(1) have t: "timers_tracked s" and r: "running_ok s"
    by (simp_all add: coherent_def)
  consider (iv) i d now where "e = IntervalFires i d now"
    | (tf) i r1 r2 where "e = TimeoutFires i r1 r2"
    | (other) "\<forall>i r now. e \<noteq> IntervalFires i r now" "\<forall>i r1 r2. e \<noteq> TimeoutFires i r1 r2"
    by blast
  then show ?thesis
  proof cases
    case iv
    show ?thesis
    proof (cases "i \<in> fst ` set (intervals s)")
      case False
      with iv assms(2) show ?thesis by simp
    next
      case True
      then have ne: "intervals s \<noteq> []" by auto
      with r have b: "1 \<le> timeLeft s" "timeLeft s \<le> 6"
        by (simp_all add: running_ok_def)
      show ?thesis
      proof (cases "timeLeft s \<le> 1")
        case last: True
        with b have "timeLeft s = 1" by simp
        moreover have "rev [1..5::int] = [5, 4, 3, 2, 1]" by (simp add: upto.simps)
        ultimately show ?thesis
          using iv True last t assms(2) ne
          by (simp add: countdown_last countdown_trace_def)
      next
        case False
        then have "1 < timeLeft s" by simp
        with iv True assms(2) ne b show ?thesis
          by (simp add: countdown_tick countdown_trace_def rev_upto_pred)
      qed
    qed
  next
    case tf
    with assms(2) show ?thesis
      using step_TimeoutFires_frame [of i r1 r2 s]
      by (simp add: countdown_trace_def del: step.simps)
  next
    case other
    from passive_step [OF assms(3,4) other, of s]
    have p: "log (step e s) = log s" "intervals (step e s) = intervals s"
      "challengeResult s = None \<longrightarrow> timeLeft (step e s) = timeLeft s"
      by simp_all
    show ?thesis
    proof (cases "intervals s = []")
      case True
      with p assms(2) show ?thesis by (simp add: countdown_trace_def)
    next
      case False
      with r have "challengeResult s = None" by (simp add: running_ok_def)
      with p assms(2) show ?thesis by (simp add: countdown_trace_def)
    qed
  qed
qed

lemma countdown_trace_run:
  "coherent s \<Longrightarrow> countdown_trace before s \<Longrightarrow>
   \<not> list_ex is_start es \<Longrightarrow> \<not> list_ex is_unmount es \<Longrightarrow>
   countdown_trace before (run es s)"
proof (induction es arbitrary: s)
  case Nil
  then show ?case by simp
next
  case (Cons e es)
  from Cons.prems have "countdown_trace before (step e s)"
    by (intro countdown_trace_step) simp_all
  moreover from Cons.prems have "coherent (step e s)"
    by (simp add: coherent_step)
  ultimately show ?case
    using Cons.IH [of "step e s"] Cons.prems by simp
qed

subsection \<open>The motion invariant\<close>

lemma motion_trace_alt:
  "motion_trace n s \<longleftrightarrow>
     timeouts s = [] \<and> moves (log s) \<le> n + 8
     \<or> (\<exists>i e. timeouts s = [(i, 800, e)] \<and> e < 6000 \<and> 800 * moves (log s) = 800 * n + e)"
  by (auto simp: motion_trace_def split: list.splits)

lemma moves_snoc: "moves (l @ [c]) = (if is_move c then Suc (moves l) else moves l)"
  by (simp add: moves_def)

lemma moves_snoc2: "moves (l @ [c, c']) = moves ((l @ [c]) @ [c'])"
  by simp

lemma motion_trace_step:
  assumes "coherent s" and "motion_trace n s" and "\<not> is_start e"
  shows "motion_trace n (step e s)"
proof -
  from assms(1) have t: "timers_tracked s" and r: "running_ok s"
    by (simp_all add: coherent_def)
  have weaken: "moves (log s) \<le> n + 8"
    using assms(2) by (auto simp: motion_trace_alt)
  consider (iv) i d now where "e = IntervalFires i d now"
    | (tf) i r1 r2 where "e = TimeoutFires i r1 r2"
    | (um) "e = Unmount"
    | (other) "\<not> is_unmount e" "\<forall>i r now. e \<noteq> IntervalFires i r now"
        "\<forall>i r1 r2. e \<noteq> TimeoutFires i r1 r2"
    by (cases e) auto
  then show ?thesis
  proof cases
    case iv
    show ?thesis
    proof (cases "i \<in> fst ` set (intervals s)")
      case False
      with iv assms(2) show ?thesis by simp
    next
      case True
      show ?thesis
      proof (cases "timeLeft s \<le> 1")
        case last: True
        with iv True t weaken show ?thesis
          by (simp add: countdown_last motion_trace_alt moves_def)
      next
        case False
        then have "1 < timeLeft s" by simp
        with iv True assms(2) show ?thesis
          by (simp add: countdown_tick motion_trace_alt moves_snoc)
      qed
    qed
  next
    case tf
    show ?thesis
    proof (cases "timeouts s")
      case Nil
      with tf assms(2) show ?thesis by simp
    next
      case (Cons a rest)
      obtain j d el where a: "a = (j, d, el)" by (cases a)
      from Cons a assms(2) have f: "rest = []" "d = 800" "el < 6000"
        "800 * moves (log s) = 800 * n + el"
        by (simp_all add: motion_trace_alt)
      show ?thesis
      proof (cases "i = j")
        case False
        with tf Cons a f assms(2) show ?thesis by simp
      next
        case True
        have e: "step e s = moveDot r1 r2 el (s\<lparr> timeouts := [] \<rparr>)"
          using tf Cons a f True by simp
        show ?thesis
        proof (cases "el + 800 < 6000")
          case more: True
          with f show ?thesis
            by (simp add: e moveDot_more motion_trace_alt moves_snoc)
        next
          case False
          with f show ?thesis
            by (simp add: e moveDot_done motion_trace_alt moves_snoc)
        qed
      qed
    qed
  next
    case um
    show ?thesis
    proof (cases "mounted s")
      case True
      have "log (stopCamera s) = log s"
        by (cases "streamRef s") (simp_all add: stopCamera_def)
      with um True t weaken show ?thesis
        by (simp add: cleanup_tracked motion_trace_alt)
    next
      case False
      with um assms(2) show ?thesis by simp
    qed
  next
    case other
    from passive_step [OF assms(3) other, of s] assms(2) show ?thesis
      by (simp add: motion_trace_alt)
  qed
qed

lemma motion_trace_run:
  "coherent s \<Longrightarrow> motion_trace n s \<Longrightarrow> \<not> list_ex is_start es \<Longrightarrow>
   motion_trace n (run es s)"
proof (induction es arbitrary: s)
  case Nil
  then show ?case by simp
next
  case (Cons e es)
  from Cons.prems have "motion_trace n (step e s)"
    by (intro motion_trace_step) simp_all
  moreover from Cons.prems have "coherent (step e s)"
    by (simp add: coherent_step)
  ultimately show ?case
    using Cons.IH [of "step e s"] Cons.prems by simp
qed

subsection \<open>The example challenge, run to its end\<close>

lemma until_last_move_eq:
  "run until_last_move (step (ClickStart (1/2) (1/4)) idle_state) =
     idle_state\<lparr> isChallengeActive := True, timeLeft := 1,
        dotPosition := \<lparr> dot_x = 30, dot_y = 30 \<rparr>,
        challengeTimerRef := Some 1, dotTimerRef := Some 8,
        intervals := [(1, 1000)], nextTimer := 9,
        log := [Moved 50 30, Moved 30 70, Remaining 5, Moved 20 20, Remaining 4, Moved 50 50,
                Remaining 3, Moved 70 30, Moved 10 80, Remaining 2, Moved 80 10, Remaining 1,
                Moved 30 30] \<rparr>"
  by (simp add: until_last_move_def idle_state_eq init_def startDisabled_def
       startChallenge_active moveDot_more moveDot_done countdown_tick)

lemma full_run_eq:
  "run full_run (step (ClickStart (1/2) (1/4)) idle_state) =
     idle_state\<lparr> timeLeft := 0,
        challengeResult := Some \<lparr> status = PASS, duration = 6, timestamp = 6000 \<rparr>,
        dotPosition := \<lparr> dot_x = 30, dot_y = 30 \<rparr>,
        dotTimerRef := None, nextTimer := 9,
        log := [Moved 50 30, Moved 30 70, Remaining 5, Moved 20 20, Remaining 4, Moved 50 50,
                Remaining 3, Moved 70 30, Moved 10 80, Remaining 2, Moved 80 10, Remaining 1,
                Moved 30 30, Completed, Remaining 0] \<rparr>"
  unfolding full_run_def run_append until_last_move_eq
  by (simp add: idle_state_eq init_def countdown_def endChallenge_def clearTimer_def Let_def)

lemma full_run_uninterrupted:
  "\<not> list_ex is_start until_last_move" "\<not> list_ex is_start full_run"
  "\<not> list_ex is_unmount full_run"
  by (simp_all add: full_run_def until_last_move_def)

lemma idle_state_fields: "isCameraActive idle_state" "\<not> isChallengeActive idle_state"
  by (simp_all add: idle_state_eq init_def)

subsection \<open>Camera events\<close>

lemma camera_only_by_resolve:
  "(\<forall>st. e \<noteq> CameraResolves st) \<Longrightarrow>
     (isCameraActive (step e s) \<longrightarrow> isCameraActive s)
   \<and> (streamRef (step e s) = streamRef s \<or> streamRef (step e s) = None)"
proof (cases e)
  case (VideoElement b)
  then show ?thesis by (cases "videoRef s") simp_all
next
  case (IntervalFires i r now)
  then show ?thesis
    by (cases "challengeTimerRef s"; cases "dotTimerRef s")
       (simp_all add: countdown_def endChallenge_def clearTimer_def Let_def)
next
  case (TimeoutFires i r1 r2)
  have "isCameraActive (moveDot r1 r2 el t) = isCameraActive t
      \<and> streamRef (moveDot r1 r2 el t) = streamRef t" for el t
    by (cases "el + 800 < 6000") (simp_all add: moveDot_more moveDot_done)
  with TimeoutFires show ?thesis
    by (simp split: option.splits prod.splits)
next
  case ClickSubmit
  then show ?thesis by (cases "challengeResult s") (simp_all add: submitResult_def)
next
  case Unmount
  then show ?thesis
    by (cases "streamRef s"; cases "challengeTimerRef s"; cases "dotTimerRef s")
       (simp_all add: cleanup_def stopCamera_def clearTimer_def Let_def)
next
  case (ClickStart r1 r2)
  then show ?thesis by (simp add: startDisabled_def startChallenge_active)
qed (simp_all add: handleRegister_def startCamera_def startCamera_rejected_def)

lemma resolve_with_element:
  "0 < pendingCamera s \<Longrightarrow> videoRef s \<noteq> None \<Longrightarrow>
   step (CameraResolves st) s =
     s\<lparr> pendingCamera := pendingCamera s - 1, openStreams := st # openStreams s,
        videoRef := Some (Some st), streamRef := Some st, isCameraActive := True \<rparr>"
  by (cases "videoRef s") (simp_all add: startCamera_resolved_def)

lemma resolve_without_element:
  "0 < pendingCamera s \<Longrightarrow> videoRef s = None \<Longrightarrow>
   step (CameraResolves st) s =
     s\<lparr> pendingCamera := pendingCamera s - 1, openStreams := st # openStreams s \<rparr>"
  by (simp add: startCamera_resolved_def)

lemma resolve_nothing_pending:
  "pendingCamera s = 0 \<Longrightarrow> step (CameraResolves st) s = s"
  by simp

lemma registered_state_eq:
  "registered_state = init\<lparr> user := \<lparr> name = alice, email = alice_mail \<rparr>, isRegistered := True,
                             pendingCamera := 1 \<rparr>"
  by (simp add: registered_state_def init_def alice_def alice_mail_def handleRegister_def
       startCamera_def truthy_def trim_def is_white_def includes_at_def at_sign_def)

subsection \<open>The component as rendered\<close>

text \<open>
  As long as nothing attaches a video element, an inactive camera stays inactive. The
  JSX attaches the element only while \<open>isCameraActive\<close> holds (line 167).
\<close>

lemma inactive_without_video_element:
  assumes "\<not> isCameraActive s" and "videoRef s = None" and "\<forall>b. e \<noteq> VideoElement b"
  shows "\<not> isCameraActive (step e s) \<and> videoRef (step e s) = None"
proof (cases "\<exists>st. e = CameraResolves st")
  case True
  with assms show ?thesis by (auto simp: startCamera_resolved_def split: if_splits)
next
  case False
  then have n: "\<forall>st. e \<noteq> CameraResolves st" by simp
  have "videoRef (step e s) = None"
  proof (cases e)
    case (VideoElement b)
    with assms(3) show ?thesis by blast
  next
    case (CameraResolves st)
    with n show ?thesis by blast
  next
    case (IntervalFires i r now)
    with assms show ?thesis
      by (cases "challengeTimerRef s"; cases "dotTimerRef s")
         (simp_all add: countdown_def endChallenge_def clearTimer_def Let_def)
  next
    case (TimeoutFires i r1 r2)
    have "videoRef (moveDot r1 r2 el t) = videoRef t" for el t
      by (cases "el + 800 < 6000") (simp_all add: moveDot_more moveDot_done)
    with TimeoutFires assms show ?thesis
      by (simp split: option.splits prod.splits)
  next
    case ClickSubmit
    with assms show ?thesis by (cases "challengeResult s") (simp_all add: submitResult_def)
  next
    case (ClickStart r1 r2)
    with assms show ?thesis by (simp add: startDisabled_def)
  qed (use assms in \<open>simp_all add: handleRegister_def startCamera_def startCamera_rejected_def\<close>)
  with camera_only_by_resolve [OF n, of s] assms show ?thesis by simp
qed

text \<open>
  On the rendered page the camera is never active: the element is attached only while
  the camera is active, and the camera becomes active only when a request resolves with
  the element attached. So no stream is ever stored, no challenge starts and no timer is
  registered; every stream a request resolves with stays open, through the unmount too.
\<close>

lemma rendered_reachable: "rendered s \<Longrightarrow> reachable s"
  by (induction rule: rendered.induct) (simp_all add: reachable_init reachable_step)

lemma rendered_never_active:
  "rendered s \<Longrightarrow> \<not> isCameraActive s \<and> videoRef s = None \<and> streamRef s = None"
proof (induction rule: rendered.induct)
  case rendered_init
  show ?case by (simp add: init_def)
next
  case (rendered_step s e)
  show ?case
  proof (cases "\<exists>b. e = VideoElement b")
    case True
    then obtain b where e: "e = VideoElement b" ..
    with rendered_step have "\<not> b" by simp
    with e rendered_step.IH show ?thesis by simp
  next
    case False
    then have n: "\<forall>b. e \<noteq> VideoElement b" by simp
    from rendered_step.IH have a: "\<not> isCameraActive (step e s) \<and> videoRef (step e s) = None"
      using inactive_without_video_element [OF _ _ n, of s] by simp
    have "streamRef (step e s) = None"
    proof (cases "\<exists>st. e = CameraResolves st")
      case True
      with rendered_step.IH show ?thesis
        by (auto simp: startCamera_resolved_def split: if_splits)
    next
      case False
      then have "\<forall>st. e \<noteq> CameraResolves st" by simp
      from camera_only_by_resolve [OF this, of s] rendered_step.IH show ?thesis by auto
    qed
    with a show ?thesis by simp
  qed
qed

lemma rendered_no_timers: "rendered s \<Longrightarrow> intervals s = [] \<and> timeouts s = []"
proof -
  assume r: "rendered s"
  then have "coherent s" by (simp add: rendered_reachable reachable_coherent)
  then have "running_ok s" and "timers_tracked s" by (simp_all add: coherent_def)
  moreover from r have "\<not> isCameraActive s" by (simp add: rendered_never_active)
  ultimately show ?thesis by (auto simp: running_ok_def timers_tracked_def)
qed

lemma openStreams_cleanup:
  "streamRef s = None \<Longrightarrow> openStreams (cleanup s) = openStreams s"
  by (cases "challengeTimerRef s"; cases "dotTimerRef s")
     (simp_all add: cleanup_def stopCamera_def clearTimer_def Let_def)

lemma rendered_unmount_keeps_streams:
  "rendered s \<Longrightarrow> openStreams (step Unmount s) = openStreams s"
  by (simp add: rendered_never_active openStreams_cleanup)

lemma rendered_streams_stay_open:
  assumes "rendered s" and "jsx_allows s e"
  shows "set (openStreams s) \<subseteq> set (openStreams (step e s))"
proof (cases e)
  case (VideoElement b)
  then show ?thesis by (cases "videoRef s") simp_all
next
  case (CameraResolves st)
  then show ?thesis by (cases "videoRef s") (auto simp: startCamera_resolved_def)
next
  case (IntervalFires i r now)
  with rendered_no_timers [OF assms(1)] show ?thesis by simp
next
  case (TimeoutFires i r1 r2)
  with rendered_no_timers [OF assms(1)] show ?thesis by simp
next
  case ClickSubmit
  then show ?thesis by (cases "challengeResult s") (simp_all add: submitResult_def)
next
  case Unmount
  with rendered_unmount_keeps_streams [OF assms(1)] show ?thesis by simp
next
  case (ClickStart r1 r2)
  with rendered_never_active [OF assms(1)] show ?thesis by (simp add: startDisabled_def)
qed (simp_all add: handleRegister_def startCamera_def startCamera_rejected_def)

lemma acquired_state_eq:
  "acquired_state = registered_state\<lparr> pendingCamera := 0, openStreams := [7] \<rparr>"
  unfolding acquired_state_def
  by (simp add: registered_state_eq init_def alice_def alice_mail_def handleRegister_def
       startCamera_def startCamera_resolved_def truthy_def trim_def is_white_def includes_at_def
       at_sign_def)

lemma rendered_acquired_state: "rendered acquired_state"
  unfolding acquired_state_def run.simps
  by (intro rendered_step rendered_init) (simp_all del: step.simps)

subsection \<open>Starting a challenge\<close>

text \<open>
  C1. In every reachable state, pressing \<open>Start Challenge\<close> changes nothing unless the
  camera is active and no challenge is running; in that state it starts the challenge
  with exactly one countdown interval. The handler refuses an inactive camera
  (line 71); a running challenge is refused by the button, which is disabled then
  (line 304). Pressing the button twice in a row is the same as pressing it once, and
  at most one countdown interval is live afterwards.
\<close>

theorem startChallenge_only_when_idle:
  "reachable s \<Longrightarrow>
     (\<not> (isCameraActive s \<and> \<not> isChallengeActive s) \<longrightarrow> step (ClickStart r1 r2) s = s)
   \<and> (isCameraActive s \<and> \<not> isChallengeActive s \<longrightarrow>
        isChallengeActive (step (ClickStart r1 r2) s)
        \<and> intervals (step (ClickStart r1 r2) s) = [(nextTimer s, 1000)])
   \<and> step (ClickStart r3 r4) (step (ClickStart r1 r2) s) = step (ClickStart r1 r2) s
   \<and> length (intervals (step (ClickStart r3 r4) (step (ClickStart r1 r2) s))) \<le> 1"
proof -
  assume "reachable s"
  then have c: "coherent s" by (rule reachable_coherent)
  have a: "\<not> (isCameraActive s \<and> \<not> isChallengeActive s) \<longrightarrow> step (ClickStart r1 r2) s = s"
    by (auto simp: startDisabled_def)
  have b: "isCameraActive s \<and> \<not> isChallengeActive s \<longrightarrow>
        isChallengeActive (step (ClickStart r1 r2) s)
        \<and> intervals (step (ClickStart r1 r2) s) = [(nextTimer s, 1000)]"
    using c by (auto simp: coherent_def running_ok_def device_ok_def startDisabled_def
        startChallenge_active)
  have "coherent (step (ClickStart r3 r4) (step (ClickStart r1 r2) s))"
    using c by (simp only: coherent_step)
  then have d: "length (intervals (step (ClickStart r3 r4) (step (ClickStart r1 r2) s))) \<le> 1"
    by (simp only: coherent_def tracked_intervals_le1)
  from a b d show ?thesis by (simp only: start_twice simp_thms)
qed

theorem startChallenge_only_when_idle_witness:
  "isChallengeActive (step (ClickStart (1/2) (1/4)) idle_state)
   \<and> intervals (step (ClickStart (1/2) (1/4)) idle_state) = [(1, 1000)]
   \<and> step (ClickStart (3/4) (1/8)) (step (ClickStart (1/2) (1/4)) idle_state)
       = step (ClickStart (1/2) (1/4)) idle_state
   \<and> length (intervals (step (ClickStart (3/4) (1/8)) (step (ClickStart (1/2) (1/4)) idle_state))) \<le> 1
   \<and> step (ClickStart (1/2) (1/4)) init = init"
  using startChallenge_only_when_idle [OF reachable_idle_state, of "1/2" "1/4" "3/4" "1/8"]
        startChallenge_only_when_idle [OF reachable_init, of "1/2" "1/4" "3/4" "1/8"]
  by (simp add: idle_state_eq init_def)

subsection \<open>The countdown of a completed challenge\<close>

text \<open>
  C2. A challenge is started in a reachable state and runs through any events that
  neither unmount the component nor start another challenge. If it is over at the end,
  the countdown was set to 6 at the start and the countdown callbacks logged since then
  are exactly the remaining values 5, 4, 3, 2, 1, one completion, and the remaining
  value 0: each value once, none skipped, and \<open>endChallenge\<close> called once.
\<close>

theorem countdown_delivers_each_second_once:
  assumes "reachable s" and "isCameraActive s" and "\<not> isChallengeActive s"
    and "\<not> list_ex is_start es" and "\<not> list_ex is_unmount es"
    and "\<not> isChallengeActive (run es (step (ClickStart r1 r2) s))"
  shows "timeLeft (step (ClickStart r1 r2) s) = 6
       \<and> filter is_countdown (log (run es (step (ClickStart r1 r2) s)))
           = filter is_countdown (log s)
             @ [Remaining 5, Remaining 4, Remaining 3, Remaining 2, Remaining 1,
                Completed, Remaining 0]"
proof -
  let ?s0 = "step (ClickStart r1 r2) s"
  from assms(1) have c: "coherent s" by (rule reachable_coherent)
  then have d: "device_ok s" by (simp add: coherent_def)
  with assms(2) have m: "mounted s" "isRegistered s" by (simp_all add: device_ok_def)
  have e: "?s0 = startChallenge r1 r2 s"
    using m assms(2,3) by (simp add: startDisabled_def)
  have c0: "coherent ?s0" using c by (rule coherent_step)
  have "rev [6..5::int] = []" by simp
  then have "countdown_trace (filter is_countdown (log s)) ?s0"
    unfolding e by (simp add: startChallenge_active assms(2) countdown_trace_def)
  from countdown_trace_run [OF c0 this assms(4,5)]
  have f: "countdown_trace (filter is_countdown (log s)) (run es ?s0)" .
  have "running_ok (run es ?s0)"
    using coherent_run [OF c0, of es] by (simp add: coherent_def)
  with assms(6) have "intervals (run es ?s0) = []"
    by (auto simp: running_ok_def)
  with f have "filter is_countdown (log (run es ?s0))
           = filter is_countdown (log s)
             @ [Remaining 5, Remaining 4, Remaining 3, Remaining 2, Remaining 1,
                Completed, Remaining 0]"
    by (simp add: countdown_trace_def)
  moreover have "timeLeft ?s0 = 6"
    unfolding e by (simp add: startChallenge_active assms(2))
  ultimately show ?thesis by simp
qed

theorem countdown_delivers_each_second_once_witness:
  "filter is_countdown (log (run full_run (step (ClickStart (1/2) (1/4)) idle_state)))
     = [Remaining 5, Remaining 4, Remaining 3, Remaining 2, Remaining 1, Completed, Remaining 0]
   \<and> \<not> isChallengeActive (run full_run (step (ClickStart (1/2) (1/4)) idle_state))"
proof -
  have b: "\<not> isChallengeActive (run full_run (step (ClickStart (1/2) (1/4)) idle_state))"
    unfolding full_run_eq by (simp add: idle_state_eq init_def)
  from countdown_delivers_each_second_once
         [OF reachable_idle_state idle_state_fields full_run_uninterrupted(2,3) b] b
  show ?thesis by (simp add: idle_state_eq init_def del: step.simps)
qed

subsection \<open>Unmounting\<close>

text \<open>
  What the cleanup achieves. When a mounted component in a reachable state is unmounted,
  no interval and no timeout is left registered, and whatever events follow, no tick,
  move or completion is logged any more. A stream held in \<open>streamRef\<close> is stopped
  and the ref is cleared. \<open>stopCamera\<close> without a stream changes nothing, and running
  \<open>stopCamera\<close> or the whole cleanup a second time changes nothing further.
\<close>

lemma unmount_clears_timers_and_stored_stream:
  "(reachable s \<and> mounted s \<longrightarrow>
      (\<forall>es. log (run es (step Unmount s)) = log s
            \<and> intervals (run es (step Unmount s)) = []
            \<and> timeouts (run es (step Unmount s)) = [])
      \<and> streamRef (step Unmount s) = None
      \<and> (\<forall>st. streamRef s = Some st \<longrightarrow> st \<notin> set (openStreams (step Unmount s))))
   \<and> (streamRef s = None \<longrightarrow> stopCamera s = s)
   \<and> stopCamera (stopCamera s) = stopCamera s
   \<and> cleanup (cleanup s) = cleanup s"
proof -
  have "(\<forall>es. log (run es (step Unmount s)) = log s
            \<and> intervals (run es (step Unmount s)) = []
            \<and> timeouts (run es (step Unmount s)) = [])
      \<and> streamRef (step Unmount s) = None
      \<and> (\<forall>st. streamRef s = Some st \<longrightarrow> st \<notin> set (openStreams (step Unmount s)))"
    if r: "reachable s" and m: "mounted s"
  proof -
    from r have "timers_tracked s"
      using reachable_coherent by (simp add: coherent_def)
    then have u: "step Unmount s =
        (stopCamera s)\<lparr> intervals := [], timeouts := [], mounted := False, videoRef := None \<rparr>"
      using m by (rule step_Unmount_tracked)
    have d: "dead (step Unmount s)"
      by (subst u) (simp add: dead_def)
    have l: "log (step Unmount s) = log s"
      by (subst u, cases "streamRef s") (simp_all add: stopCamera_def)
    have "log (run es (step Unmount s)) = log s
            \<and> intervals (run es (step Unmount s)) = []
            \<and> timeouts (run es (step Unmount s)) = []" for es
      using dead_run [OF d, of es] l by (simp add: dead_def)
    moreover have "streamRef (step Unmount s) = None"
      by (subst u, cases "streamRef s") (simp_all add: stopCamera_def)
    moreover have "st \<notin> set (openStreams (step Unmount s))" if "streamRef s = Some st" for st
      using that by (subst u) (simp add: stopCamera_def)
    ultimately show ?thesis by blast
  qed
  then show ?thesis
    using stopCamera_absent [of s] stopCamera_twice [of s] cleanup_twice [of s] by blast
qed

text \<open>
  C3 requires that the unmount also releases the device session. On the rendered page
  it does not. After Alice has registered and the camera request has resolved with
  stream 7, the component is mounted, the stream is open and \<open>streamRef\<close> is empty,
  because \<open>startCamera\<close> found no video element (line 35). The cleanup calls
  \<open>stopCamera\<close>, which looks only at \<open>streamRef\<close> (line 52): after the unmount the
  stream is still open.
\<close>

theorem unmount_leaves_acquired_stream_open:
  "openStreams acquired_state = [7]
   \<and> streamRef acquired_state = None
   \<and> mounted acquired_state
   \<and> openStreams (step Unmount acquired_state) = [7]
   \<and> streamRef (step Unmount acquired_state) = None
   \<and> mounted (step Unmount acquired_state) = False"
  by (simp add: acquired_state_eq registered_state_eq init_def cleanup_def stopCamera_def)

subsection \<open>Registration\<close>

text \<open>
  C4. In a mounted, unregistered component, entering \<open>(n, e)\<close> and pressing the
  button registers exactly when the trimmed name is not empty and the email contains
  \<open>@\<close> (the source's third test, that the trimmed email is not empty, follows from
  the second). On success the flag is set and the camera is requested; otherwise the only
  effect is the alert that reports the invalid input: registration flag, camera, challenge
  and result are as before.
\<close>

theorem register_validation:
  "mounted s \<Longrightarrow> \<not> isRegistered s \<Longrightarrow>
     (isRegistered (register n e s) \<longleftrightarrow> trim n \<noteq> [] \<and> at_sign \<in> set e)
   \<and> (trim n \<noteq> [] \<and> at_sign \<in> set e \<longrightarrow>
        register n e s = s\<lparr> user := \<lparr> name = n, email = e \<rparr>, isRegistered := True,
                             pendingCamera := Suc (pendingCamera s) \<rparr>)
   \<and> (\<not> (trim n \<noteq> [] \<and> at_sign \<in> set e) \<longrightarrow>
        register n e s = s\<lparr> user := \<lparr> name = n, email = e \<rparr>,
                             alerts := alerts s @ [InvalidRegistration] \<rparr>)"
  using includes_at_truthy_trim [of e]
  by (auto simp: register_def handleRegister_def startCamera_def truthy_def includes_at_def)


theorem register_validation_witness:
  "register [0x41, 0x6C, 0x69, 0x63, 0x65] [0x61, 0x40, 0x62, 0x2E, 0x63, 0x6F, 0x6D] init
     = init\<lparr> user := \<lparr> name = [0x41, 0x6C, 0x69, 0x63, 0x65],
                         email = [0x61, 0x40, 0x62, 0x2E, 0x63, 0x6F, 0x6D] \<rparr>,
              isRegistered := True, pendingCamera := 1 \<rparr>
   \<and> register [0x20, 0x09] [0x61, 0x40, 0x62] init
     = init\<lparr> user := \<lparr> name = [0x20, 0x09], email = [0x61, 0x40, 0x62] \<rparr>,
              alerts := [InvalidRegistration] \<rparr>
   \<and> \<not> isRegistered (register [0x41] [0x61, 0x2E, 0x62] init)"
  using register_validation [of init "[0x41, 0x6C, 0x69, 0x63, 0x65]" "[0x61, 0x40, 0x62, 0x2E, 0x63, 0x6F, 0x6D]"]
        register_validation [of init "[0x20, 0x09]" "[0x61, 0x40, 0x62]"]
        register_validation [of init "[0x41]" "[0x61, 0x2E, 0x62]"]
  by (simp add: init_def trim_def is_white_def at_sign_def)

subsection \<open>The countdown reaches zero\<close>

text \<open>
  C5. When the countdown interval fires in a reachable state with at most one second
  left, both timers are cleared and their refs reset, the result is stored with
  duration 6, the instant of the call as timestamp and status \<open>PASS\<close> exactly when the
  random draw exceeds 0.3, and the component shows a result on an active camera with no
  challenge running. Of the draws in \<open>[0, 1)\<close>, those that pass are the interval
  \<open>(0.3, 1)\<close>, of length 0.7. The draw is taken as a real number.
\<close>

theorem countdown_zero_publishes_result:
  assumes "reachable s" and "i \<in> fst ` set (intervals s)" and "timeLeft s \<le> 1"
  shows "intervals (step (IntervalFires i r now) s) = []
       \<and> timeouts (step (IntervalFires i r now) s) = []
       \<and> challengeTimerRef (step (IntervalFires i r now) s) = None
       \<and> dotTimerRef (step (IntervalFires i r now) s) = None
       \<and> challengeResult (step (IntervalFires i r now) s)
           = Some \<lparr> status = (if 3 / 10 < r then PASS else FAIL), duration = 6, timestamp = now \<rparr>
       \<and> isCameraActive (step (IntervalFires i r now) s)
       \<and> \<not> isChallengeActive (step (IntervalFires i r now) s)
       \<and> timeLeft (step (IntervalFires i r now) s) = 0
       \<and> {d. 0 \<le> d \<and> d < 1 \<and>
              map_option status (challengeResult (step (IntervalFires i d now) s)) = Some PASS}
           = {3 / 10 <..< 1}"
proof -
  have e: "step (IntervalFires i d now) s =
     s\<lparr> isChallengeActive := False, log := log s @ [Completed, Remaining 0],
        intervals := [], timeouts := [],
        challengeTimerRef := None, dotTimerRef := None,
        challengeResult := Some \<lparr> status = (if 3 / 10 < d then PASS else FAIL),
                                    duration = 6, timestamp = now \<rparr>,
        timeLeft := 0 \<rparr>" for d
    using assms by (rule step_IntervalFires_last)
  have c: "isCameraActive s"
    using live_interval_camera [OF assms(1,2)] by simp
  have p: "{d. 0 \<le> d \<and> d < 1 \<and>
              map_option status (challengeResult (step (IntervalFires i d now) s)) = Some PASS}
           = {3 / 10 <..< (1::real)}"
    by (subst e) auto
  show ?thesis
    using c p by (simp add: e del: step.simps)
qed

theorem countdown_zero_publishes_result_witness:
  "challengeResult (step (IntervalFires 1 (1/2) 1700000000000) last_second)
     = Some \<lparr> status = PASS, duration = 6, timestamp = 1700000000000 \<rparr>
   \<and> challengeResult (step (IntervalFires 1 (1/4) 1700000000000) last_second)
     = Some \<lparr> status = FAIL, duration = 6, timestamp = 1700000000000 \<rparr>
   \<and> intervals (step (IntervalFires 1 (1/2) 1700000000000) last_second) = []
   \<and> isCameraActive (step (IntervalFires 1 (1/2) 1700000000000) last_second)
   \<and> \<not> isChallengeActive (step (IntervalFires 1 (1/2) 1700000000000) last_second)"
  using countdown_zero_publishes_result [OF reachable_last_second, of 1 "1/2" 1700000000000]
        countdown_zero_publishes_result [OF reachable_last_second, of 1 "1/4" 1700000000000]
  by (simp add: last_second_eq running_state_eq init_def del: step.simps)

subsection \<open>Positions of the dot\<close>

text \<open>
  C7. Along every run from the initial state whose draws are in \<open>[0, 1)\<close>, every
  position logged has both coordinates, as fractions of the viewport, between 0.10 and
  0.90. \<open>moveDot\<close> sets the position to \<open>(80 r1 + 10, 80 r2 + 10)\<close> percent
  whatever the state and the elapsed time are: each coordinate is a function of its own
  draw alone, the previous position plays no part and equal draws repeat a position.
  That function maps \<open>[0, 1)\<close> one-to-one onto \<open>[10, 90)\<close> and scales every
  difference by 80, so a uniform draw gives a uniform coordinate.
\<close>

theorem dot_positions_in_viewport:
  "(list_all draws_ok es \<longrightarrow> list_all in_viewport (log (run es init)))
   \<and> dotPosition (moveDot r1 r2 el s) = \<lparr> dot_x = r1 * 80 + 10, dot_y = r2 * 80 + 10 \<rparr>
   \<and> (unit_draw r1 \<and> unit_draw r2 \<longrightarrow>
        1 / 10 \<le> dot_x (dotPosition (moveDot r1 r2 el s)) / 100
        \<and> dot_x (dotPosition (moveDot r1 r2 el s)) / 100 < 9 / 10
        \<and> 1 / 10 \<le> dot_y (dotPosition (moveDot r1 r2 el s)) / 100
        \<and> dot_y (dotPosition (moveDot r1 r2 el s)) / 100 < 9 / 10)
   \<and> (10 \<le> v \<and> v < 90 \<longrightarrow>
        (\<exists>!r. unit_draw r \<and> dot_x (dotPosition (moveDot r r2 el s)) = v)
        \<and> (\<exists>!r. unit_draw r \<and> dot_y (dotPosition (moveDot r1 r el s)) = v))
   \<and> dot_x (dotPosition (moveDot b r2 el s)) - dot_x (dotPosition (moveDot a r2' el' s'))
        = 80 * (b - a)
   \<and> dot_y (dotPosition (moveDot r1 b el s)) - dot_y (dotPosition (moveDot r1' a el' s'))
        = 80 * (b - a)"
proof -
  have "list_all in_viewport (log init)" by (simp add: init_def)
  then have 1: "list_all draws_ok es \<longrightarrow> list_all in_viewport (log (run es init))"
    by (simp add: in_viewport_run)
  have 2: "unit_draw r1 \<and> unit_draw r2 \<longrightarrow>
        1 / 10 \<le> dot_x (dotPosition (moveDot r1 r2 el s)) / 100
        \<and> dot_x (dotPosition (moveDot r1 r2 el s)) / 100 < 9 / 10
        \<and> 1 / 10 \<le> dot_y (dotPosition (moveDot r1 r2 el s)) / 100
        \<and> dot_y (dotPosition (moveDot r1 r2 el s)) / 100 < 9 / 10"
    by (simp add: dotPosition_moveDot unit_draw_def)
  have 3: "10 \<le> v \<and> v < 90 \<longrightarrow>
        (\<exists>!r. unit_draw r \<and> dot_x (dotPosition (moveDot r r2 el s)) = v)
        \<and> (\<exists>!r. unit_draw r \<and> dot_y (dotPosition (moveDot r1 r el s)) = v)"
    using unit_draw_unique [of v] by (simp add: dotPosition_moveDot)
  have 4: "dot_x (dotPosition (moveDot b r2 el s)) - dot_x (dotPosition (moveDot a r2' el' s'))
        = 80 * (b - a)"
    by (simp add: dotPosition_moveDot)
  have 5: "dot_y (dotPosition (moveDot r1 b el s)) - dot_y (dotPosition (moveDot r1' a el' s'))
        = 80 * (b - a)"
    by (simp add: dotPosition_moveDot)
  from 1 2 3 4 5 show ?thesis by (simp only: dotPosition_moveDot simp_thms)
qed

theorem dot_positions_in_viewport_witness:
  "list_all in_viewport
     (log (run (to_idle @ [ClickStart (1/2) (1/4), TimeoutFires 2 0 (7/8)]) init))
   \<and> log (run (to_idle @ [ClickStart (1/2) (1/4), TimeoutFires 2 0 (7/8)]) init)
       = [Moved 50 30, Moved 10 80]
   \<and> dotPosition (moveDot 0 (7/8) 800 init) = \<lparr> dot_x = 10, dot_y = 80 \<rparr>"
proof -
  have d: "list_all draws_ok (to_idle @ [ClickStart (1/2) (1/4), TimeoutFires 2 0 (7/8)])"
    by (simp add: to_idle_def unit_draw_def)
  have l: "log (run (to_idle @ [ClickStart (1/2) (1/4), TimeoutFires 2 0 (7/8)]) init)
             = [Moved 50 30, Moved 10 80]"
    unfolding run_append idle_state_def [symmetric]
    by (simp add: idle_state_eq init_def startDisabled_def startChallenge_active moveDot_more)
  from dot_positions_in_viewport
         [of "to_idle @ [ClickStart (1/2) (1/4), TimeoutFires 2 0 (7/8)]" 0 "7/8" 800 init] d l
  show ?thesis by simp
qed

subsection \<open>Submitting the result\<close>

text \<open>
  C8. In a reachable state of a mounted component that holds a result, pressing
  \<open>Submit Result\<close> announces the stored status together with the user's name and
  email, clears the result and leaves the camera active with no challenge running.
  After that, whatever happens short of starting a new challenge, pressing it again
  changes nothing. Starting a challenge while the result is still stored discards it.
\<close>

theorem result_consumed_once:
  assumes "reachable s" and "mounted s" and "challengeResult s = Some res"
  shows "step ClickSubmit s =
           s\<lparr> alerts := alerts s @ [ResultSubmitted (status res) (name (user s)) (email (user s))],
              challengeResult := None, timeLeft := 0 \<rparr>
       \<and> isCameraActive (step ClickSubmit s) \<and> \<not> isChallengeActive (step ClickSubmit s)
       \<and> (\<forall>es. \<not> list_ex is_start es \<longrightarrow>
             step ClickSubmit (run es (step ClickSubmit s)) = run es (step ClickSubmit s))
       \<and> isChallengeActive (step (ClickStart r1 r2) s)
       \<and> challengeResult (step (ClickStart r1 r2) s) = None"
proof -
  from assms(1) have c: "timers_tracked s" "running_ok s" "result_ok s"
    using reachable_coherent by (simp_all add: coherent_def)
  from c(3) assms have f: "isRegistered s" "isCameraActive s" "\<not> isChallengeActive s"
    by (simp_all add: result_ok_def)
  from c(2) assms(3) have i: "intervals s = []"
    by (auto simp: running_ok_def)
  with c(1) have t: "timeouts s = []"
    by (auto simp: timers_tracked_def)
  have e: "step ClickSubmit s =
           s\<lparr> alerts := alerts s @ [ResultSubmitted (status res) (name (user s)) (email (user s))],
              challengeResult := None, timeLeft := 0 \<rparr>"
    using assms f by (simp add: submitResult_def)
  have q: "quiet (step ClickSubmit s)" and n: "challengeResult (step ClickSubmit s) = None"
    by (simp_all add: e quiet_def i t del: step.simps)
  have "step ClickSubmit (run es (step ClickSubmit s)) = run es (step ClickSubmit s)"
    if "\<not> list_ex is_start es" for es
    using quiet_run [OF q that] n by simp
  moreover have "isCameraActive (step ClickSubmit s) \<and> \<not> isChallengeActive (step ClickSubmit s)"
    using f by (simp add: e del: step.simps)
  moreover have "isChallengeActive (step (ClickStart r1 r2) s)
       \<and> challengeResult (step (ClickStart r1 r2) s) = None"
    using f assms(2) by (simp add: startDisabled_def startChallenge_active)
  ultimately show ?thesis using e by blast
qed

theorem result_consumed_once_witness:
  "alerts (step ClickSubmit result_ready) = [ResultSubmitted PASS alice alice_mail]
   \<and> challengeResult (step ClickSubmit result_ready) = None
   \<and> step ClickSubmit (run [ClickSubmit, IntervalFires 1 (1/2) 0] (step ClickSubmit result_ready))
       = run [ClickSubmit, IntervalFires 1 (1/2) 0] (step ClickSubmit result_ready)
   \<and> challengeResult (step (ClickStart (1/2) (1/2)) result_ready) = None"
  using result_consumed_once [OF reachable_result_ready, of
          "\<lparr> status = PASS, duration = 6, timestamp = 1700000000000 \<rparr>" "1/2" "1/2"]
  by (simp add: result_ready_eq last_second_eq running_state_eq init_def submitResult_def
       startDisabled_def startChallenge_active)

subsection \<open>The motion scheduler\<close>

text \<open>
  C9. A challenge is started in a reachable state and runs through any events that do
  not start another one. The start emits one position at once and schedules the next
  after 800 ms. At any later moment at most eight positions have been emitted since the
  start; a timeout is pending only with delay 800 and with an elapsed time, 800 ms per
  position emitted, that is below 6000; and once eight are emitted no timeout is
  pending, without anything having cleared it. \<open>moveDot\<close> schedules its successor
  exactly when the elapsed time after its own step is below 6000.
\<close>

theorem motion_emits_at_most_eight:
  assumes "reachable s" and "isCameraActive s" and "\<not> isChallengeActive s"
    and "\<not> list_ex is_start es"
  shows "log (step (ClickStart r1 r2) s) = log s @ [Moved (r1 * 80 + 10) (r2 * 80 + 10)]
       \<and> timeouts (step (ClickStart r1 r2) s) = [(Suc (nextTimer s), 800, 800)]
       \<and> moves (log (run es (step (ClickStart r1 r2) s))) \<le> moves (log s) + 8
       \<and> (case timeouts (run es (step (ClickStart r1 r2) s)) of
             [] \<Rightarrow> True
           | (i, d, e) # rest \<Rightarrow>
               rest = [] \<and> d = 800 \<and> e < 6000
               \<and> 800 * moves (log (run es (step (ClickStart r1 r2) s)))
                   = 800 * moves (log s) + e)
       \<and> (moves (log (run es (step (ClickStart r1 r2) s))) = moves (log s) + 8 \<longrightarrow>
             timeouts (run es (step (ClickStart r1 r2) s)) = [])
       \<and> timeouts (moveDot r3 r4 el t) =
             (if el + 800 < 6000 then timeouts t @ [(nextTimer t, 800, el + 800)]
              else timeouts t)"
proof -
  let ?s0 = "step (ClickStart r1 r2) s"
  from assms(1) have c: "coherent s" by (rule reachable_coherent)
  then have d: "device_ok s" and r: "running_ok s" and t: "timers_tracked s"
    by (simp_all add: coherent_def)
  from d assms(2) have m: "mounted s" "isRegistered s" by (simp_all add: device_ok_def)
  from r assms(3) have i: "intervals s = []" by (auto simp: running_ok_def)
  with t have to: "timeouts s = []" by (auto simp: timers_tracked_def)
  have e: "?s0 = startChallenge r1 r2 s"
    using m assms(2,3) by (simp add: startDisabled_def)
  have c0: "coherent ?s0" using c by (rule coherent_step)
  have l0: "log ?s0 = log s @ [Moved (r1 * 80 + 10) (r2 * 80 + 10)]"
    unfolding e by (simp add: startChallenge_active assms(2))
  have t0: "timeouts ?s0 = [(Suc (nextTimer s), 800, 800)]"
    unfolding e by (simp add: startChallenge_active assms(2) to)
  have "motion_trace (moves (log s)) ?s0"
    by (simp add: motion_trace_alt l0 t0 moves_snoc del: step.simps)
  from motion_trace_run [OF c0 this assms(4)]
  have f: "motion_trace (moves (log s)) (run es ?s0)" .
  have 1: "moves (log (run es ?s0)) \<le> moves (log s) + 8"
    using f by (auto simp: motion_trace_def split: list.splits)
  have 2: "(case timeouts (run es ?s0) of
             [] \<Rightarrow> True
           | (i, d, e) # rest \<Rightarrow>
               rest = [] \<and> d = 800 \<and> e < 6000
               \<and> 800 * moves (log (run es ?s0)) = 800 * moves (log s) + e)"
    using f by (auto simp: motion_trace_def split: list.splits)
  have 3: "moves (log (run es ?s0)) = moves (log s) + 8 \<longrightarrow> timeouts (run es ?s0) = []"
    using f by (auto simp: motion_trace_def split: list.splits)
  have 4: "timeouts (moveDot r3 r4 el t) =
             (if el + 800 < 6000 then timeouts t @ [(nextTimer t, 800, el + 800)]
              else timeouts t)"
    by (simp add: moveDot_more moveDot_done)
  from l0 t0 1 2 3 4 show ?thesis by blast
qed

theorem motion_emits_at_most_eight_witness:
  "moves (log (run until_last_move (step (ClickStart (1/2) (1/4)) idle_state))) = 8
   \<and> timeouts (run until_last_move (step (ClickStart (1/2) (1/4)) idle_state)) = []
   \<and> isChallengeActive (run until_last_move (step (ClickStart (1/2) (1/4)) idle_state))
   \<and> moves (log (run full_run (step (ClickStart (1/2) (1/4)) idle_state))) \<le> 8
   \<and> log (step (ClickStart (1/2) (1/4)) idle_state) = [Moved 50 30]
   \<and> timeouts (step (ClickStart (1/2) (1/4)) idle_state) = [(2, 800, 800)]"
proof -
  let ?s0 = "step (ClickStart (1/2) (1/4)) idle_state"
  have a: "moves (log (run until_last_move ?s0)) = 8"
    "isChallengeActive (run until_last_move ?s0)"
    unfolding until_last_move_eq by (simp_all add: idle_state_eq init_def moves_def)
  have i: "moves (log idle_state) = 0" "log idle_state = []" "nextTimer idle_state = 1"
    by (simp_all add: idle_state_eq init_def moves_def)
  note u = motion_emits_at_most_eight
         [OF reachable_idle_state idle_state_fields full_run_uninterrupted(1),
          of "1/2" "1/4" 0 0 0 init]
  note f = motion_emits_at_most_eight
         [OF reachable_idle_state idle_state_fields full_run_uninterrupted(2),
          of "1/2" "1/4" 0 0 0 init]
  from u have "moves (log (run until_last_move ?s0)) = moves (log idle_state) + 8 \<longrightarrow>
      timeouts (run until_last_move ?s0) = []"
    by blast
  with a i have 1: "timeouts (run until_last_move ?s0) = []"
    by (simp del: step.simps)
  from f have "moves (log (run full_run ?s0)) \<le> moves (log idle_state) + 8"
    by blast
  with i have 2: "moves (log (run full_run ?s0)) \<le> 8"
    by (simp del: step.simps)
  from u have "log ?s0 = log idle_state @ [Moved (1/2 * 80 + 10) (1/4 * 80 + 10)]"
    and "timeouts ?s0 = [(Suc (nextTimer idle_state), 800, 800)]"
    by blast+
  with i have 3: "log ?s0 = [Moved 50 30]" "timeouts ?s0 = [(2, 800, 800)]"
    by (simp_all del: step.simps)
  from a 1 2 3 show ?thesis by blast
qed

subsection \<open>Activating the camera\<close>

text \<open>
  C10. The camera becomes active, and a stream is stored in \<open>streamRef\<close>, only by a
  resolving camera request that finds the video element attached; the stream is then
  bound to the element as well. A request that resolves while no element is attached
  changes nothing in the component: the stream stays open on the platform, and it is
  neither stored nor stopped.
\<close>

theorem camera_active_only_with_video_element:
  "(\<not> isCameraActive s \<and> isCameraActive (step e s) \<longrightarrow>
       videoRef s \<noteq> None
       \<and> (\<exists>st. e = CameraResolves st \<and> streamRef (step e s) = Some st
                 \<and> videoRef (step e s) = Some (Some st)))
   \<and> (streamRef (step e s) \<noteq> streamRef s \<and> streamRef (step e s) \<noteq> None \<longrightarrow>
       videoRef s \<noteq> None \<and> (\<exists>st. e = CameraResolves st))
   \<and> (0 < pendingCamera s \<and> videoRef s \<noteq> None \<longrightarrow>
       step (CameraResolves st) s =
         s\<lparr> pendingCamera := pendingCamera s - 1, openStreams := st # openStreams s,
            videoRef := Some (Some st), streamRef := Some st, isCameraActive := True \<rparr>)
   \<and> (0 < pendingCamera s \<and> videoRef s = None \<longrightarrow>
       step (CameraResolves st) s =
         s\<lparr> pendingCamera := pendingCamera s - 1, openStreams := st # openStreams s \<rparr>)"
proof -
  have a: "videoRef s \<noteq> None
       \<and> (\<exists>st. e = CameraResolves st \<and> streamRef (step e s) = Some st
                 \<and> videoRef (step e s) = Some (Some st))"
    if "\<not> isCameraActive s" and "isCameraActive (step e s)"
  proof -
    have "\<exists>st'. e = CameraResolves st'"
    proof (rule ccontr)
      assume "\<not> (\<exists>st'. e = CameraResolves st')"
      then have "\<forall>st. e \<noteq> CameraResolves st" by simp
      from camera_only_by_resolve [OF this, of s] that show False by auto
    qed
    then obtain st' where e: "e = CameraResolves st'" ..
    show ?thesis
    proof (cases "pendingCamera s = 0")
      case True
      with that e show ?thesis by simp
    next
      case False
      show ?thesis
      proof (cases "videoRef s")
        case None
        with False that e show ?thesis by (simp add: startCamera_resolved_def)
      next
        case (Some a)
        with False e show ?thesis by (simp add: startCamera_resolved_def)
      qed
    qed
  qed
  have b: "videoRef s \<noteq> None \<and> (\<exists>st. e = CameraResolves st)"
    if "streamRef (step e s) \<noteq> streamRef s" and "streamRef (step e s) \<noteq> None"
  proof -
    have "\<exists>st'. e = CameraResolves st'"
    proof (rule ccontr)
      assume "\<not> (\<exists>st'. e = CameraResolves st')"
      then have "\<forall>st. e \<noteq> CameraResolves st" by simp
      from camera_only_by_resolve [OF this, of s] that show False by auto
    qed
    then obtain st' where e: "e = CameraResolves st'" ..
    show ?thesis
    proof (cases "pendingCamera s = 0")
      case True
      with that e show ?thesis by simp
    next
      case False
      with that e show ?thesis by (cases "videoRef s") (simp_all add: startCamera_resolved_def)
    qed
  qed
  from a b show ?thesis
    using resolve_with_element [of s st] resolve_without_element [of s st] by blast
qed

theorem camera_active_only_with_video_element_witness:
  "step (CameraResolves 7) registered_state
     = registered_state\<lparr> pendingCamera := 0, openStreams := [7] \<rparr>
   \<and> step (CameraResolves 7) (step (VideoElement True) registered_state)
     = registered_state\<lparr> pendingCamera := 0, openStreams := [7], videoRef := Some (Some 7),
                           streamRef := Some 7, isCameraActive := True \<rparr>"
  using camera_active_only_with_video_element [of registered_state "CameraResolves 7" 7]
        camera_active_only_with_video_element
          [of "step (VideoElement True) registered_state" "CameraResolves 7" 7]
  by (simp add: registered_state_eq init_def startCamera_resolved_def)

end
